theory Spec2Isabelle
  imports Main "HOL-Library.Multiset" "HOL-Library.Sublist" "HOL-Library.Word"
begin

unbundle bit_operations_syntax

section \<open>Data model of main.go\<close>

text \<open>
  A \<open>time.Time\<close> is an instant, counted from the zero time: \<open>IsZero\<close> is \<open>t = 0\<close> and
  \<open>t.After(u)\<close> is \<open>u < t\<close>. Strings and byte slices are \<open>string\<close>.
\<close>

type_synonym time = int

record PostFrontmatter =
  fmTitle :: string
  fmDate :: time

record PostData =
  Title :: string
  Date :: time
  Slug :: string
  Content :: string

definition emptyFrontmatter :: PostFrontmatter where
  "emptyFrontmatter = \<lparr>fmTitle = [], fmDate = 0\<rparr>"

definition emptyPost :: PostData where
  "emptyPost = \<lparr>Title = [], Date = 0, Slug = [], Content = []\<rparr>"

text \<open>Errors are values; \<open>os.IsNotExist\<close> holds of \<open>ErrNotExist\<close> only (and not of nil).\<close>

datatype error = ErrNotExist | ErrPermission | ErrBadPattern | ErrOther string

fun IsNotExist :: "error option \<Rightarrow> bool" where
  "IsNotExist (Some ErrNotExist) = True"
| "IsNotExist _ = False"

text \<open>The value handed to \<open>tmpl.Execute\<close>: a post, a \<open>TemplateData\<close>, or the about page's struct.\<close>

datatype page =
  PostPage PostData
| ListPage string "PostData list"
| AboutPage string string

text \<open>
  The collaborators outside the repository (file system reads, the front-matter, Markdown,
  template, text-casing, sorting, path and URL libraries) are fields of an environment.
  \<open>osStat\<close> returns the \<open>ModTime\<close> of the file info. \<open>templateExecute\<close> returns the
  chunks the template wrote before it stopped, and the error it stopped with, if any.
\<close>

record env =
  osReadFile :: "string \<Rightarrow> error + string"
  osStat :: "string \<Rightarrow> error + time"
  filepathGlob :: "string \<Rightarrow> error + string list"
  filepathJoin :: "string list \<Rightarrow> string"
  filepathDir :: "string \<Rightarrow> string"
  frontmatterParse :: "string \<Rightarrow> error + (PostFrontmatter \<times> string)"
  markdownConvert :: "string \<Rightarrow> error + string"
  casesTitle :: "string \<Rightarrow> string"
  sortSlice :: "(PostData \<Rightarrow> PostData \<Rightarrow> bool) \<Rightarrow> PostData list \<Rightarrow> PostData list"
  templateParseFiles :: "string list \<Rightarrow> error option"
  templateExecute :: "string list \<Rightarrow> page \<Rightarrow> string list \<times> error option"
  urlParse :: "string \<Rightarrow> error + string"
  osMkdirAll :: "string \<Rightarrow> error option"
  osWriteFile :: "string \<Rightarrow> string \<Rightarrow> error option"

section \<open>String and path helpers of the standard library\<close>

definition IsPathSeparator :: "char \<Rightarrow> bool" where
  "IsPathSeparator c = (c = CHR ''/'')"

text \<open>\<open>strings.TrimSuffix\<close>.\<close>

definition TrimSuffix :: "string \<Rightarrow> string \<Rightarrow> string" where
  "TrimSuffix s suf = (if suffix suf s then take (length s - length suf) s else s)"

text \<open>\<open>strings.ReplaceAll\<close> for a one-byte \<open>old\<close>, which is how main.go calls it.\<close>

definition ReplaceAll :: "string \<Rightarrow> char \<Rightarrow> string \<Rightarrow> string" where
  "ReplaceAll s old new = concat (map (\<lambda>c. if c = old then new else [c]) s)"

text \<open>
  \<open>filepath.Ext\<close>: scan from the end while no separator is met; the suffix from the first
  dot found, else empty. \<open>ExtRev\<close> walks the reversed path and collects what it passed.
\<close>

fun ExtRev :: "string \<Rightarrow> string \<Rightarrow> string" where
  "ExtRev [] acc = []"
| "ExtRev (c # cs) acc =
     (if IsPathSeparator c then []
      else if c = CHR ''.'' then c # acc
      else ExtRev cs (c # acc))"

definition Ext :: "string \<Rightarrow> string" where
  "Ext path = ExtRev (rev path) []"

text \<open>\<open>filepath.Base\<close> (no volume names): strip trailing separators, keep the last element.\<close>

definition Base :: "string \<Rightarrow> string" where
  "Base path =
     (if path = [] then ''.''
      else let p = rev (dropWhile IsPathSeparator (rev path));
               l = rev (takeWhile (\<lambda>c. \<not> IsPathSeparator c) (rev p))
           in if l = [] then ''/'' else l)"

section \<open>Loading one post\<close>

definition CleanTitle :: "env \<Rightarrow> string \<Rightarrow> string" where
  "CleanTitle E filename =
     (let title = TrimSuffix filename (Ext filename);
          title = ReplaceAll title CHR ''-'' '' '';
          title = ReplaceAll title CHR ''_'' '' ''
      in casesTitle E title)"

text \<open>
  The front matter and body \<open>LoadPostFromFile\<close> goes on with after \<open>frontmatter.Parse\<close>:
  on a parse error the original bytes and an empty front matter.
\<close>

definition parseOrEmpty :: "env \<Rightarrow> string \<Rightarrow> PostFrontmatter \<times> string" where
  "parseOrEmpty E mdBytes =
     (case frontmatterParse E mdBytes of
        Inl err \<Rightarrow> (emptyFrontmatter, mdBytes)
      | Inr (fm, remainingMd) \<Rightarrow> (fm, remainingMd))"

definition LoadPostFromFile :: "env \<Rightarrow> string \<Rightarrow> error + PostData" where
  "LoadPostFromFile E filePath =
     (case osReadFile E filePath of
        Inl err \<Rightarrow> Inl err
      | Inr mdBytes \<Rightarrow>
          let (fm, remainingMd) = parseOrEmpty E mdBytes in
          (case osStat E filePath of
             Inl err \<Rightarrow> Inl err
           | Inr modTime \<Rightarrow>
               let filename = Base filePath;
                   slug = TrimSuffix filename (Ext filename);
                   title = (if fmTitle fm = [] then CleanTitle E filename else fmTitle fm);
                   date = (if fmDate fm = 0 then modTime else fmDate fm)
               in (case markdownConvert E remainingMd of
                     Inl err \<Rightarrow> Inl err
                   | Inr html \<Rightarrow>
                       Inr \<lparr>Title = title, Date = date, Slug = slug, Content = html\<rparr>)))"

section \<open>The collection builder\<close>

text \<open>The \<open>for _, file := range files\<close> loop, with the slice built so far.\<close>

fun loadEach :: "env \<Rightarrow> string list \<Rightarrow> PostData list \<Rightarrow> error + PostData list" where
  "loadEach E [] posts = Inr posts"
| "loadEach E (file # files) posts =
     (case LoadPostFromFile E file of
        Inl err \<Rightarrow> Inl err
      | Inr post \<Rightarrow> loadEach E files (posts @ [post]))"

definition dateAfter :: "PostData \<Rightarrow> PostData \<Rightarrow> bool" where
  "dateAfter p q = (Date q < Date p)"

definition loadPostsFromDirectory :: "env \<Rightarrow> string \<Rightarrow> error + PostData list" where
  "loadPostsFromDirectory E pattern =
     (case filepathGlob E pattern of
        Inl err \<Rightarrow> Inl err
      | Inr files \<Rightarrow>
          (case loadEach E files [] of
             Inl err \<Rightarrow> Inl err
           | Inr posts \<Rightarrow> Inr (sortSlice E dateAfter posts)))"

definition LoadBlogPosts :: "env \<Rightarrow> error + PostData list" where
  "LoadBlogPosts E = loadPostsFromDirectory E ''posts/*.md''"

definition LoadThoughtsPosts :: "env \<Rightarrow> error + PostData list" where
  "LoadThoughtsPosts E = loadPostsFromDirectory E ''thoughts/*.md''"

section \<open>Single-post lookup\<close>

definition statErr :: "env \<Rightarrow> string \<Rightarrow> error option" where
  "statErr E file = (case osStat E file of Inl err \<Rightarrow> Some err | Inr _ \<Rightarrow> None)"

definition LoadPost :: "env \<Rightarrow> string \<Rightarrow> error + PostData" where
  "LoadPost E slug =
     (let file = filepathJoin E [''posts'', slug @ ''.md''] in
      if IsNotExist (statErr E file) then
        (let file2 = filepathJoin E [''thoughts'', slug @ ''.md''] in
         case statErr E file2 of
           None \<Rightarrow> LoadPostFromFile E file2
         | Some err \<Rightarrow>
             if IsNotExist (Some err) then Inl err else LoadPostFromFile E file2)
      else LoadPostFromFile E file)"

section \<open>Handlers\<close>

text \<open>
  What a handler does to its \<open>http.ResponseWriter\<close> is the list of calls it makes, in
  order; a handler that panics leaves the calls made so far and the panic value.
\<close>

datatype call = HeaderSet string string | WriteHeader nat | Write string

type_synonym handled = "call list \<times> error option"

text \<open>\<open>http.Error\<close>: plain-text headers, the status code, the message and a newline.\<close>

definition httpError :: "string \<Rightarrow> nat \<Rightarrow> call list" where
  "httpError msg code =
     [HeaderSet ''Content-Type'' ''text/plain; charset=utf-8'',
      HeaderSet ''X-Content-Type-Options'' ''nosniff'',
      WriteHeader code,
      Write (msg @ [CHR 0x0A])]"

definition StatusOK :: nat where "StatusOK = 200"
definition StatusNotFound :: nat where "StatusNotFound = 404"
definition StatusInternalServerError :: nat where "StatusInternalServerError = 500"

text \<open>
  The status of the response: the first \<open>WriteHeader\<close>, or 200 when a \<open>Write\<close> comes first
  or nothing is written at all.
\<close>

fun statusOf :: "call list \<Rightarrow> nat" where
  "statusOf [] = StatusOK"
| "statusOf (WriteHeader c # cs) = c"
| "statusOf (Write b # cs) = StatusOK"
| "statusOf (HeaderSet k v # cs) = statusOf cs"

text \<open>\<open>template.Must(template.ParseFiles(...))\<close> followed by \<open>tmpl.Execute(w, data)\<close>.\<close>

definition renderTemplate :: "env \<Rightarrow> string list \<Rightarrow> page \<Rightarrow> handled" where
  "renderTemplate E names data =
     (case templateParseFiles E names of
        Some err \<Rightarrow> ([], Some err)
      | None \<Rightarrow>
          (case templateExecute E names data of
             (chunks, None) \<Rightarrow> (map Write chunks, None)
           | (chunks, Some err) \<Rightarrow>
               (map Write chunks @ httpError ''Error executing template'' StatusInternalServerError,
                None)))"

definition PostHandler :: "env \<Rightarrow> string option \<Rightarrow> handled" where
  "PostHandler E url =
     (let hdr = [HeaderSet ''Content-Type'' ''text/html; charset=utf-8''] in
      case url of
        None \<Rightarrow> (hdr, Some (ErrOther ''nil pointer dereference''))
      | Some path \<Rightarrow>
          if length path < length ''/post/''
          then (hdr, Some (ErrOther ''slice bounds out of range''))
          else
            (let slug = drop (length ''/post/'') path in
             case LoadPost E slug of
               Inl err \<Rightarrow> (hdr @ httpError ''Post not found'' StatusNotFound, None)
             | Inr post \<Rightarrow>
                 (let (calls, pnc) =
                        renderTemplate E
                          [filepathJoin E [''templates'', ''base.gohtml''],
                           filepathJoin E [''templates'', ''post.gohtml'']]
                          (PostPage post)
                  in (hdr @ calls, pnc))))"

definition postsHandler ::
  "env \<Rightarrow> (env \<Rightarrow> error + PostData list) \<Rightarrow> string \<Rightarrow> string \<Rightarrow> handled" where
  "postsHandler E loadPosts title templateName =
     (case loadPosts E of
        Inl err \<Rightarrow> (httpError ''Error loading posts'' StatusInternalServerError, None)
      | Inr posts \<Rightarrow>
          renderTemplate E
            [filepathJoin E [''templates'', ''base.gohtml''],
             filepathJoin E [''templates'', templateName]]
            (ListPage title posts))"

definition HomeHandler :: "env \<Rightarrow> handled" where
  "HomeHandler E = postsHandler E LoadBlogPosts ''Home'' ''home.gohtml''"

definition ThoughtsHandler :: "env \<Rightarrow> handled" where
  "ThoughtsHandler E = postsHandler E LoadThoughtsPosts ''Thoughts'' ''thoughts.gohtml''"

text \<open>
  \<open>RenderMarkdown\<close> returns a read error and panics on a conversion error: the outer
  \<open>Inl\<close> is the panic.
\<close>

definition RenderMarkdown :: "env \<Rightarrow> string \<Rightarrow> error + (error + string)" where
  "RenderMarkdown E filePath =
     (case osReadFile E filePath of
        Inl err \<Rightarrow> Inr (Inl err)
      | Inr mdBytes \<Rightarrow>
          (let remainingMd =
                 (case frontmatterParse E mdBytes of
                    Inl err \<Rightarrow> mdBytes
                  | Inr (fm, rest) \<Rightarrow> rest)
           in case markdownConvert E remainingMd of
                Inl err \<Rightarrow> Inl err
              | Inr html \<Rightarrow> Inr (Inr html)))"

definition AboutHandler :: "env \<Rightarrow> handled" where
  "AboutHandler E =
     (case RenderMarkdown E ''nav/about.md'' of
        Inl pnc \<Rightarrow> ([], Some pnc)
      | Inr (Inl err) \<Rightarrow>
          (httpError ''Error loading about page'' StatusInternalServerError, None)
      | Inr (Inr content) \<Rightarrow>
          renderTemplate E
            [filepathJoin E [''templates'', ''base.gohtml''],
             filepathJoin E [''templates'', ''about.gohtml'']]
            (AboutPage ''About Me'' content))"

section \<open>Static generation\<close>

text \<open>
  The mock response writer keeps the bytes of every \<open>Write\<close> in its buffer and only
  records the status.
\<close>

fun bufferOf :: "call list \<Rightarrow> string" where
  "bufferOf [] = []"
| "bufferOf (Write b # cs) = b @ bufferOf cs"
| "bufferOf (c # cs) = bufferOf cs"

text \<open>
  What a run does to the output tree is the list of its successful file system writes.
  A run ends by returning nil, by returning an error, or in a panic.
\<close>

datatype fsop = MkdirAllOp string | WriteFileOp string string

datatype ending = Done | Failed error | Panicked error

type_synonym run = "fsop list \<times> ending"

text \<open>Sequencing: the second step runs only if the first returned nil.\<close>

definition andThen :: "run \<Rightarrow> run \<Rightarrow> run" where
  "andThen r1 r2 = (case r1 of (ops, Done) \<Rightarrow> (ops @ fst r2, snd r2) | (ops, e) \<Rightarrow> (ops, e))"

definition mkdirAll :: "env \<Rightarrow> string \<Rightarrow> run" where
  "mkdirAll E dir =
     (case osMkdirAll E dir of Some err \<Rightarrow> ([], Failed err) | None \<Rightarrow> ([MkdirAllOp dir], Done))"

definition writeFile :: "env \<Rightarrow> string \<Rightarrow> string \<Rightarrow> run" where
  "writeFile E path bytes =
     (case osWriteFile E path bytes of
        Some err \<Rightarrow> ([], Failed err)
      | None \<Rightarrow> ([WriteFileOp path bytes], Done))"

definition generatePage :: "env \<Rightarrow> string \<Rightarrow> string \<Rightarrow> handled \<Rightarrow> run" where
  "generatePage E outputDir filename h =
     (case h of
        (calls, Some pnc) \<Rightarrow> ([], Panicked pnc)
      | (calls, None) \<Rightarrow>
          (let outputPath = filepathJoin E [outputDir, filename] in
           andThen (mkdirAll E (filepathDir E outputPath))
                   (writeFile E outputPath (bufferOf calls))))"

definition postSlug :: "string \<Rightarrow> string" where
  "postSlug file = TrimSuffix (Base file) (Ext file)"

definition postRequest :: "env \<Rightarrow> string \<Rightarrow> string option" where
  "postRequest E slug =
     (case urlParse E (''/post/'' @ slug) of Inl err \<Rightarrow> None | Inr path \<Rightarrow> Some path)"

definition generatePost :: "env \<Rightarrow> string \<Rightarrow> string \<Rightarrow> run" where
  "generatePost E outputDir file =
     (let slug = postSlug file;
          postPath = filepathJoin E [''post'', slug, ''index.html'']
      in generatePage E outputDir postPath (PostHandler E (postRequest E slug)))"

text \<open>The two \<open>for _, file := range\<close> loops over the glob matches.\<close>

fun generatePosts :: "env \<Rightarrow> string \<Rightarrow> string list \<Rightarrow> run" where
  "generatePosts E outputDir [] = ([], Done)"
| "generatePosts E outputDir (file # files) =
     andThen (generatePost E outputDir file) (generatePosts E outputDir files)"

definition generateGlob :: "env \<Rightarrow> string \<Rightarrow> string \<Rightarrow> run" where
  "generateGlob E outputDir pattern =
     (case filepathGlob E pattern of
        Inl err \<Rightarrow> ([], Failed err)
      | Inr files \<Rightarrow> generatePosts E outputDir files)"

definition GenerateStaticSite :: "env \<Rightarrow> string \<Rightarrow> run" where
  "GenerateStaticSite E outputDir =
     andThen (mkdirAll E outputDir)
    (andThen (generatePage E outputDir ''index.html'' (HomeHandler E))
    (andThen (generatePage E outputDir ''about.html'' (AboutHandler E))
    (andThen (generatePage E outputDir ''thoughts.html'' (ThoughtsHandler E))
    (andThen (generateGlob E outputDir ''posts/*.md'')
             (generateGlob E outputDir ''thoughts/*.md'')))))"

text \<open>
  The output tree maps a path to the bytes last written there; a run's writes are replayed
  on it in order.
\<close>

fun applyOp :: "fsop \<Rightarrow> (string \<rightharpoonup> string) \<Rightarrow> (string \<rightharpoonup> string)" where
  "applyOp (MkdirAllOp d) t = t"
| "applyOp (WriteFileOp path bytes) t = t(path \<mapsto> bytes)"

definition applyOps :: "fsop list \<Rightarrow> (string \<rightharpoonup> string) \<Rightarrow> (string \<rightharpoonup> string)" where
  "applyOps ops t = fold applyOp ops t"

fun writtenFiles :: "fsop list \<Rightarrow> (string \<times> string) list" where
  "writtenFiles [] = []"
| "writtenFiles (WriteFileOp path bytes # ops) = (path, bytes) # writtenFiles ops"
| "writtenFiles (MkdirAllOp d # ops) = writtenFiles ops"

text \<open>The output path and the bytes \<open>GenerateStaticSite\<close> computes for one matched file.\<close>

definition postOutput :: "env \<Rightarrow> string \<Rightarrow> string \<Rightarrow> string \<times> string" where
  "postOutput E outputDir file =
     (filepathJoin E [outputDir, filepathJoin E [''post'', postSlug file, ''index.html'']],
      bufferOf (fst (PostHandler E (postRequest E (postSlug file)))))"


section \<open>Two runs of the generation\<close>

text \<open>
  The second run is the same program: the path, front-matter, Markdown, casing, sorting and
  URL libraries are those of the first run.
\<close>

definition sameLibraries :: "env \<Rightarrow> env \<Rightarrow> bool" where
  "sameLibraries E E' \<longleftrightarrow>
     filepathJoin E' = filepathJoin E \<and> filepathDir E' = filepathDir E \<and>
     frontmatterParse E' = frontmatterParse E \<and> markdownConvert E' = markdownConvert E \<and>
     casesTitle E' = casesTitle E \<and> sortSlice E' = sortSlice E \<and> urlParse E' = urlParse E"

text \<open>A file has the same contents and the same modification time in both worlds.\<close>

definition sameFile :: "env \<Rightarrow> env \<Rightarrow> string \<Rightarrow> bool" where
  "sameFile E E' p \<longleftrightarrow> osReadFile E' p = osReadFile E p \<and> osStat E' p = osStat E p"

text \<open>A set of template files parses and executes alike in both worlds.\<close>

definition sameTemplates :: "env \<Rightarrow> env \<Rightarrow> string list \<Rightarrow> bool" where
  "sameTemplates E E' names \<longleftrightarrow>
     templateParseFiles E' names = templateParseFiles E names \<and>
     templateExecute E' names = templateExecute E names"

text \<open>The matches of a pattern; none when the glob fails.\<close>

definition globMatches :: "env \<Rightarrow> string \<Rightarrow> string list" where
  "globMatches E pattern = (case filepathGlob E pattern of Inl err \<Rightarrow> [] | Inr files \<Rightarrow> files)"

text \<open>
  The two files \<open>LoadPost\<close> may stat and load for the request that \<open>GenerateStaticSite\<close>
  builds for a matched file.
\<close>

definition lookupFiles :: "env \<Rightarrow> string \<Rightarrow> string list" where
  "lookupFiles E file =
     (case postRequest E (postSlug file) of
        None \<Rightarrow> []
      | Some path \<Rightarrow>
          [filepathJoin E [''posts'', drop (length ''/post/'') path @ ''.md''],
           filepathJoin E [''thoughts'', drop (length ''/post/'') path @ ''.md'']])"

text \<open>
  The Markdown files of the site: the about page, the matches of the two patterns, and the
  files the single-post lookup tries for each match.
\<close>

definition sourceFiles :: "env \<Rightarrow> string list" where
  "sourceFiles E =
     (let matches = globMatches E ''posts/*.md'' @ globMatches E ''thoughts/*.md''
      in ''nav/about.md'' # matches @ concat (map (lookupFiles E) matches))"

text \<open>The template files the four handlers parse.\<close>

definition templateSets :: "env \<Rightarrow> string list list" where
  "templateSets E =
     map (\<lambda>name. [filepathJoin E [''templates'', ''base.gohtml''],
                   filepathJoin E [''templates'', name]])
       [''home.gohtml'', ''about.gohtml'', ''thoughts.gohtml'', ''post.gohtml'']"

text \<open>
  Unchanged inputs: the world \<open>E'\<close> of a later run agrees with the world \<open>E\<close> of the first
  run on the libraries, the matches of the two patterns, the Markdown files (contents and
  modification times) and the templates. Everything else may differ: other files, among
  them the output files, and the outcomes of \<open>os.MkdirAll\<close> and \<open>os.WriteFile\<close>.
\<close>

definition sameInputs :: "env \<Rightarrow> env \<Rightarrow> bool" where
  "sameInputs E E' \<longleftrightarrow>
     sameLibraries E E' \<and>
     filepathGlob E' ''posts/*.md'' = filepathGlob E ''posts/*.md'' \<and>
     filepathGlob E' ''thoughts/*.md'' = filepathGlob E ''thoughts/*.md'' \<and>
     (\<forall>p \<in> set (sourceFiles E). sameFile E E' p) \<and>
     (\<forall>names \<in> set (templateSets E). sameTemplates E E' names)"

text \<open>The file system writes of a \<open>generatePage\<close> that returns nil.\<close>

definition pageOps :: "env \<Rightarrow> string \<Rightarrow> string \<Rightarrow> handled \<Rightarrow> fsop list" where
  "pageOps E outputDir filename h =
     [MkdirAllOp (filepathDir E (filepathJoin E [outputDir, filename])),
      WriteFileOp (filepathJoin E [outputDir, filename]) (bufferOf (fst h))]"

text \<open>The writes for one matched file.\<close>

definition postOps :: "env \<Rightarrow> string \<Rightarrow> string \<Rightarrow> fsop list" where
  "postOps E outputDir file =
     pageOps E outputDir (filepathJoin E [''post'', postSlug file, ''index.html''])
       (PostHandler E (postRequest E (postSlug file)))"

text \<open>The writes of a whole run that returns nil.\<close>

definition siteOps :: "env \<Rightarrow> string \<Rightarrow> fsop list" where
  "siteOps E outputDir =
     MkdirAllOp outputDir #
     pageOps E outputDir ''index.html'' (HomeHandler E) @
     pageOps E outputDir ''about.html'' (AboutHandler E) @
     pageOps E outputDir ''thoughts.html'' (ThoughtsHandler E) @
     concat (map (postOps E outputDir) (globMatches E ''posts/*.md'')) @
     concat (map (postOps E outputDir) (globMatches E ''thoughts/*.md''))"


section \<open>The standard library's sort.Slice\<close>

text \<open>
  \<open>sort.Slice\<close> of the Go standard library (package \<open>sort\<close>, pattern-defeating
  quicksort), function by function. \<open>data.Less(i, j)\<close> is \<open>lt (xs ! i) (xs ! j)\<close> and
  \<open>data.Swap(i, j)\<close> exchanges two positions of the slice. Indices are natural numbers,
  except the downward scans of the partitions, which may step below their lower bound.
\<close>

definition dataLess :: "('a \<Rightarrow> 'a \<Rightarrow> bool) \<Rightarrow> 'a list \<Rightarrow> nat \<Rightarrow> nat \<Rightarrow> bool" where
  "dataLess lt xs i j = lt (xs ! i) (xs ! j)"

definition dataSwap :: "'a list \<Rightarrow> nat \<Rightarrow> nat \<Rightarrow> 'a list" where
  "dataSwap xs i j = xs[i := xs ! j, j := xs ! i]"

function insertionShift :: "('a \<Rightarrow> 'a \<Rightarrow> bool) \<Rightarrow> 'a list \<Rightarrow> nat \<Rightarrow> nat \<Rightarrow> 'a list" where
  "insertionShift lt xs a j =
     (if j > a \<and> dataLess lt xs j (j - 1)
      then insertionShift lt (dataSwap xs j (j - 1)) a (j - 1) else xs)"
  by pat_completeness auto
termination by (relation "measure (\<lambda>(lt, xs, a, j). j)") auto
declare insertionShift.simps [simp del]

function insertionSortFrom ::
  "('a \<Rightarrow> 'a \<Rightarrow> bool) \<Rightarrow> 'a list \<Rightarrow> nat \<Rightarrow> nat \<Rightarrow> nat \<Rightarrow> 'a list" where
  "insertionSortFrom lt xs a b i =
     (if i < b then insertionSortFrom lt (insertionShift lt xs a i) a b (i + 1) else xs)"
  by pat_completeness auto
termination by (relation "measure (\<lambda>(lt, xs, a, b, i). b - i)") auto
declare insertionSortFrom.simps [simp del]

definition insertionSort_func :: "('a \<Rightarrow> 'a \<Rightarrow> bool) \<Rightarrow> 'a list \<Rightarrow> nat \<Rightarrow> nat \<Rightarrow> 'a list" where
  "insertionSort_func lt xs a b = insertionSortFrom lt xs a b (a + 1)"

function siftDownFrom ::
  "('a \<Rightarrow> 'a \<Rightarrow> bool) \<Rightarrow> 'a list \<Rightarrow> nat \<Rightarrow> nat \<Rightarrow> nat \<Rightarrow> 'a list" where
  "siftDownFrom lt xs root hi first =
     (let child = 2 * root + 1 in
      if child \<ge> hi then xs
      else
        let child = (if child + 1 < hi \<and> dataLess lt xs (first + child) (first + child + 1)
                     then child + 1 else child)
        in if \<not> dataLess lt xs (first + root) (first + child) then xs
           else siftDownFrom lt (dataSwap xs (first + root) (first + child)) child hi first)"
  by pat_completeness auto
termination by (relation "measure (\<lambda>(lt, xs, root, hi, first). hi - root)") (auto simp: Let_def)
declare siftDownFrom.simps [simp del]

definition siftDown_func ::
  "('a \<Rightarrow> 'a \<Rightarrow> bool) \<Rightarrow> 'a list \<Rightarrow> nat \<Rightarrow> nat \<Rightarrow> nat \<Rightarrow> 'a list" where
  "siftDown_func lt xs lo hi first = siftDownFrom lt xs lo hi first"

text \<open>
  The two loops of \<open>heapSort_func\<close> count an int down to \<open>-1\<close>; \<open>quo\<close> is Go's
  division, which truncates toward zero.
\<close>
function heapBuild ::
  "('a \<Rightarrow> 'a \<Rightarrow> bool) \<Rightarrow> 'a list \<Rightarrow> nat \<Rightarrow> nat \<Rightarrow> int \<Rightarrow> 'a list" where
  "heapBuild lt xs hi first i =
     (if i \<ge> 0 then heapBuild lt (siftDown_func lt xs (nat i) hi first) hi first (i - 1) else xs)"
  by pat_completeness auto
termination by (relation "measure (\<lambda>(lt, xs, hi, first, i). nat (i + 1))") auto
declare heapBuild.simps [simp del]

function heapPop ::
  "('a \<Rightarrow> 'a \<Rightarrow> bool) \<Rightarrow> 'a list \<Rightarrow> nat \<Rightarrow> int \<Rightarrow> 'a list" where
  "heapPop lt xs first i =
     (if i \<ge> 0
      then heapPop lt (siftDown_func lt (dataSwap xs first (first + nat i)) 0 (nat i) first) first (i - 1)
      else xs)"
  by pat_completeness auto
termination by (relation "measure (\<lambda>(lt, xs, first, i). nat (i + 1))") auto
declare heapPop.simps [simp del]

definition quo :: "int \<Rightarrow> int \<Rightarrow> int" where
  "quo x y = sgn x * sgn y * (\<bar>x\<bar> div \<bar>y\<bar>)"

definition heapSort_func :: "('a \<Rightarrow> 'a \<Rightarrow> bool) \<Rightarrow> 'a list \<Rightarrow> nat \<Rightarrow> nat \<Rightarrow> 'a list" where
  "heapSort_func lt xs a b =
     (let first = a; hi = b - a;
          xs = heapBuild lt xs hi first (quo (int hi - 1) 2)
      in heapPop lt xs first (int hi - 1))"


function partitionScanI ::
  "('a \<Rightarrow> 'a \<Rightarrow> bool) \<Rightarrow> 'a list \<Rightarrow> nat \<Rightarrow> nat \<Rightarrow> int \<Rightarrow> nat" where
  "partitionScanI lt xs a i j =
     (if int i \<le> j \<and> dataLess lt xs i a then partitionScanI lt xs a (i + 1) j else i)"
  by pat_completeness auto
termination by (relation "measure (\<lambda>(lt, xs, a, i, j). nat (j + 1 - int i))") auto
declare partitionScanI.simps [simp del]

function partitionScanJ ::
  "('a \<Rightarrow> 'a \<Rightarrow> bool) \<Rightarrow> 'a list \<Rightarrow> nat \<Rightarrow> nat \<Rightarrow> int \<Rightarrow> int" where
  "partitionScanJ lt xs a i j =
     (if int i \<le> j \<and> \<not> dataLess lt xs (nat j) a then partitionScanJ lt xs a i (j - 1) else j)"
  by pat_completeness auto
termination by (relation "measure (\<lambda>(lt, xs, a, i, j). nat (j + 1 - int i))") auto
declare partitionScanJ.simps [simp del]

lemma partitionScanI_ge: "i \<le> partitionScanI lt xs a i j"
  by (induction lt xs a i j rule: partitionScanI.induct) (subst partitionScanI.simps, force)

lemma partitionScanJ_le: "partitionScanJ lt xs a i j \<le> j"
  by (induction lt xs a i j rule: partitionScanJ.induct) (subst partitionScanJ.simps, force)

function partitionLoop ::
  "('a \<Rightarrow> 'a \<Rightarrow> bool) \<Rightarrow> 'a list \<Rightarrow> nat \<Rightarrow> nat \<Rightarrow> int \<Rightarrow> 'a list \<times> int" where
  "partitionLoop lt xs a i j =
     (let i = partitionScanI lt xs a i j;
          j = partitionScanJ lt xs a i j
      in if int i > j then (xs, j)
         else partitionLoop lt (dataSwap xs i (nat j)) a (i + 1) (j - 1))"
  by pat_completeness auto
termination
proof (relation "measure (\<lambda>(lt, xs, a, i, j). nat (j + 1 - int i))", goal_cases)
  case 1
  show ?case by simp
next
  case (2 lt xs a i j i' j')
  have "i \<le> i'" using 2 partitionScanI_ge by metis
  moreover have "j' \<le> j" using 2 partitionScanJ_le by metis
  ultimately show ?case using 2 by auto
qed
declare partitionLoop.simps [simp del]

definition partition_func ::
  "('a \<Rightarrow> 'a \<Rightarrow> bool) \<Rightarrow> 'a list \<Rightarrow> nat \<Rightarrow> nat \<Rightarrow> nat \<Rightarrow> 'a list \<times> nat \<times> bool" where
  "partition_func lt xs a b pivot =
     (let xs = dataSwap xs a pivot;
          i = a + 1; j = int b - 1;
          i = partitionScanI lt xs a i j;
          j = partitionScanJ lt xs a i j
      in if int i > j then (dataSwap xs (nat j) a, nat j, True)
         else
           let xs = dataSwap xs i (nat j);
               (xs, j) = partitionLoop lt xs a (i + 1) (j - 1)
           in (dataSwap xs (nat j) a, nat j, False))"

function equalScanI ::
  "('a \<Rightarrow> 'a \<Rightarrow> bool) \<Rightarrow> 'a list \<Rightarrow> nat \<Rightarrow> nat \<Rightarrow> int \<Rightarrow> nat" where
  "equalScanI lt xs a i j =
     (if int i \<le> j \<and> \<not> dataLess lt xs a i then equalScanI lt xs a (i + 1) j else i)"
  by pat_completeness auto
termination by (relation "measure (\<lambda>(lt, xs, a, i, j). nat (j + 1 - int i))") auto
declare equalScanI.simps [simp del]

function equalScanJ ::
  "('a \<Rightarrow> 'a \<Rightarrow> bool) \<Rightarrow> 'a list \<Rightarrow> nat \<Rightarrow> nat \<Rightarrow> int \<Rightarrow> int" where
  "equalScanJ lt xs a i j =
     (if int i \<le> j \<and> dataLess lt xs a (nat j) then equalScanJ lt xs a i (j - 1) else j)"
  by pat_completeness auto
termination by (relation "measure (\<lambda>(lt, xs, a, i, j). nat (j + 1 - int i))") auto
declare equalScanJ.simps [simp del]

lemma equalScanI_ge: "i \<le> equalScanI lt xs a i j"
  by (induction lt xs a i j rule: equalScanI.induct) (subst equalScanI.simps, force)

lemma equalScanJ_le: "equalScanJ lt xs a i j \<le> j"
  by (induction lt xs a i j rule: equalScanJ.induct) (subst equalScanJ.simps, force)

function equalLoop ::
  "('a \<Rightarrow> 'a \<Rightarrow> bool) \<Rightarrow> 'a list \<Rightarrow> nat \<Rightarrow> nat \<Rightarrow> int \<Rightarrow> 'a list \<times> nat" where
  "equalLoop lt xs a i j =
     (let i = equalScanI lt xs a i j;
          j = equalScanJ lt xs a i j
      in if int i > j then (xs, i)
         else equalLoop lt (dataSwap xs i (nat j)) a (i + 1) (j - 1))"
  by pat_completeness auto
termination
proof (relation "measure (\<lambda>(lt, xs, a, i, j). nat (j + 1 - int i))", goal_cases)
  case 1
  show ?case by simp
next
  case (2 lt xs a i j i' j')
  have "i \<le> i'" using 2 equalScanI_ge by metis
  moreover have "j' \<le> j" using 2 equalScanJ_le by metis
  ultimately show ?case using 2 by auto
qed
declare equalLoop.simps [simp del]

definition partitionEqual_func ::
  "('a \<Rightarrow> 'a \<Rightarrow> bool) \<Rightarrow> 'a list \<Rightarrow> nat \<Rightarrow> nat \<Rightarrow> nat \<Rightarrow> 'a list \<times> nat" where
  "partitionEqual_func lt xs a b pivot =
     (let xs = dataSwap xs a pivot in equalLoop lt xs a (a + 1) (int b - 1))"


lemma partitionScanI_le: "int i \<le> j + 1 \<Longrightarrow> int (partitionScanI lt xs a i j) \<le> j + 1"
  by (induction lt xs a i j rule: partitionScanI.induct) (subst partitionScanI.simps, force)

lemma partitionScanJ_ge: "int i - 1 \<le> j \<Longrightarrow> int i - 1 \<le> partitionScanJ lt xs a i j"
  by (induction lt xs a i j rule: partitionScanJ.induct) (subst partitionScanJ.simps, force)

lemma partitionLoop_le: "snd (partitionLoop lt xs a i j) \<le> j"
proof (induction lt xs a i j rule: partitionLoop.induct)
  case (1 lt xs a i j)
  define i' where "i' = partitionScanI lt xs a i j"
  define j' where "j' = partitionScanJ lt xs a i' j"
  have jj: "j' \<le> j" unfolding j'_def by (rule partitionScanJ_le)
  show ?case
  proof (cases "int i' > j'")
    case True
    then show ?thesis
      using jj by (subst partitionLoop.simps) (simp add: Let_def i'_def [symmetric] j'_def [symmetric])
  next
    case False
    then have "snd (partitionLoop lt (dataSwap xs i' (nat j')) a (i' + 1) (j' - 1)) \<le> j' - 1"
      using "1.IH" [OF i'_def j'_def] by simp
    then show ?thesis
      using jj False
      by (subst partitionLoop.simps) (simp add: Let_def i'_def [symmetric] j'_def [symmetric])
  qed
qed

lemma partitionLoop_ge: "int i \<le> j + 2 \<Longrightarrow> int i - 2 \<le> snd (partitionLoop lt xs a i j)"
proof (induction lt xs a i j rule: partitionLoop.induct)
  case (1 lt xs a i j)
  define i' where "i' = partitionScanI lt xs a i j"
  define j' where "j' = partitionScanJ lt xs a i' j"
  have ii: "i \<le> i'" unfolding i'_def by (rule partitionScanI_ge)
  have jlow: "int i - 2 \<le> j'"
  proof (cases "int i' - 1 \<le> j")
    case True
    then have "int i' - 1 \<le> j'" unfolding j'_def by (rule partitionScanJ_ge)
    then show ?thesis using ii by simp
  next
    case False
    then have "j' = j" unfolding j'_def by (subst partitionScanJ.simps) simp
    then show ?thesis using "1.prems" by simp
  qed
  show ?case
  proof (cases "int i' > j'")
    case True
    then show ?thesis
      using jlow by (subst partitionLoop.simps) (simp add: Let_def i'_def [symmetric] j'_def [symmetric])
  next
    case False
    then have "int (i' + 1) - 2 \<le> snd (partitionLoop lt (dataSwap xs i' (nat j')) a (i' + 1) (j' - 1))"
      using "1.IH" [OF i'_def j'_def] by simp
    then show ?thesis
      using ii False
      by (subst partitionLoop.simps) (simp add: Let_def i'_def [symmetric] j'_def [symmetric])
  qed
qed

lemma partition_func_mid:
  assumes "a < b" and "partition_func lt xs a b pivot = (ys, mid, already)"
  shows "a \<le> mid \<and> mid < b"
proof -
  define xs1 where "xs1 = dataSwap xs a pivot"
  define i1 where "i1 = partitionScanI lt xs1 a (a + 1) (int b - 1)"
  define j1 where "j1 = partitionScanJ lt xs1 a i1 (int b - 1)"
  have i1: "a + 1 \<le> i1" unfolding i1_def by (rule partitionScanI_ge)
  have "int i1 \<le> (int b - 1) + 1" unfolding i1_def
    by (rule partitionScanI_le) (use assms(1) in simp)
  then have j1lo: "int i1 - 1 \<le> j1" unfolding j1_def by (intro partitionScanJ_ge) simp
  have j1hi: "j1 \<le> int b - 1" unfolding j1_def by (rule partitionScanJ_le)
  show ?thesis
  proof (cases "int i1 > j1")
    case True
    then have "mid = nat j1"
      using assms(2) unfolding j1_def i1_def xs1_def
      by (simp add: partition_func_def Let_def)
    then show ?thesis using i1 j1lo j1hi assms(1) by auto
  next
    case False
    define r where "r = partitionLoop lt (dataSwap xs1 i1 (nat j1)) a (i1 + 1) (j1 - 1)"
    have m: "mid = nat (snd r)"
      using assms(2) False unfolding r_def j1_def i1_def xs1_def
      by (auto simp: partition_func_def Let_def split: prod.splits)
    have "snd r \<le> j1 - 1" unfolding r_def by (rule partitionLoop_le)
    moreover have "int (i1 + 1) - 2 \<le> snd r" unfolding r_def
      by (rule partitionLoop_ge) (use False in simp)
    ultimately show ?thesis using m i1 j1hi by auto
  qed
qed

lemma equalLoop_ge: "i \<le> snd (equalLoop lt xs a i j)"
proof (induction lt xs a i j rule: equalLoop.induct)
  case (1 lt xs a i j)
  define i' where "i' = equalScanI lt xs a i j"
  define j' where "j' = equalScanJ lt xs a i' j"
  have ii: "i \<le> i'" unfolding i'_def by (rule equalScanI_ge)
  show ?case
  proof (cases "int i' > j'")
    case True
    then show ?thesis
      using ii by (subst equalLoop.simps) (simp add: Let_def i'_def [symmetric] j'_def [symmetric])
  next
    case False
    then have "i' + 1 \<le> snd (equalLoop lt (dataSwap xs i' (nat j')) a (i' + 1) (j' - 1))"
      using "1.IH" [OF i'_def j'_def] by simp
    then show ?thesis
      using ii False
      by (subst equalLoop.simps) (simp add: Let_def i'_def [symmetric] j'_def [symmetric])
  qed
qed

lemma partitionEqual_func_mid:
  "partitionEqual_func lt xs a b pivot = (ys, mid) \<Longrightarrow> a < mid"
  using equalLoop_ge [of "a + 1" lt "dataSwap xs a pivot" a "int b - 1"]
  by (simp add: partitionEqual_func_def Let_def)

function partialScan :: "('a \<Rightarrow> 'a \<Rightarrow> bool) \<Rightarrow> 'a list \<Rightarrow> nat \<Rightarrow> nat \<Rightarrow> nat" where
  "partialScan lt xs b i =
     (if i < b \<and> \<not> dataLess lt xs i (i - 1) then partialScan lt xs b (i + 1) else i)"
  by pat_completeness auto
termination by (relation "measure (\<lambda>(lt, xs, b, i). b - i)") auto
declare partialScan.simps [simp del]

function shiftLeft :: "('a \<Rightarrow> 'a \<Rightarrow> bool) \<Rightarrow> 'a list \<Rightarrow> nat \<Rightarrow> 'a list" where
  "shiftLeft lt xs j =
     (if j \<ge> 1 then
        (if \<not> dataLess lt xs j (j - 1) then xs
         else shiftLeft lt (dataSwap xs j (j - 1)) (j - 1))
      else xs)"
  by pat_completeness auto
termination by (relation "measure (\<lambda>(lt, xs, j). j)") auto
declare shiftLeft.simps [simp del]

function shiftRight :: "('a \<Rightarrow> 'a \<Rightarrow> bool) \<Rightarrow> 'a list \<Rightarrow> nat \<Rightarrow> nat \<Rightarrow> 'a list" where
  "shiftRight lt xs b j =
     (if j < b then
        (if \<not> dataLess lt xs j (j - 1) then xs
         else shiftRight lt (dataSwap xs j (j - 1)) b (j + 1))
      else xs)"
  by pat_completeness auto
termination by (relation "measure (\<lambda>(lt, xs, b, j). b - j)") auto
declare shiftRight.simps [simp del]

definition maxSteps :: nat where "maxSteps = 5"
definition shortestShifting :: nat where "shortestShifting = 50"

function partialLoop ::
  "('a \<Rightarrow> 'a \<Rightarrow> bool) \<Rightarrow> 'a list \<Rightarrow> nat \<Rightarrow> nat \<Rightarrow> nat \<Rightarrow> nat \<Rightarrow> 'a list \<times> bool" where
  "partialLoop lt xs a b i j =
     (if j < maxSteps then
        (let i = partialScan lt xs b i in
         if i = b then (xs, True)
         else if b - a < shortestShifting then (xs, False)
         else
           let xs = dataSwap xs i (i - 1);
               xs = (if i - a \<ge> 2 then shiftLeft lt xs (i - 1) else xs);
               xs = (if b - i \<ge> 2 then shiftRight lt xs b (i + 1) else xs)
           in partialLoop lt xs a b i (j + 1))
      else (xs, False))"
  by pat_completeness auto
termination by (relation "measure (\<lambda>(lt, xs, a, b, i, j). maxSteps - j)") auto
declare partialLoop.simps [simp del]

definition partialInsertionSort_func ::
  "('a \<Rightarrow> 'a \<Rightarrow> bool) \<Rightarrow> 'a list \<Rightarrow> nat \<Rightarrow> nat \<Rightarrow> 'a list \<times> bool" where
  "partialInsertionSort_func lt xs a b = partialLoop lt xs a b (a + 1) 0"

text \<open>bits.Len: the number of bits needed to write the number; 0 for 0.\<close>

fun bitsLen :: "nat \<Rightarrow> nat" where
  "bitsLen n = (if n = 0 then 0 else 1 + bitsLen (n div 2))"
declare bitsLen.simps [simp del]

definition xorshiftNext :: "64 word \<Rightarrow> 64 word" where
  "xorshiftNext r =
     (let r = r XOR push_bit 13 r;
          r = r XOR drop_bit 7 r;
          r = r XOR push_bit 17 r
      in r)"

definition nextPowerOfTwo :: "nat \<Rightarrow> 64 word" where
  "nextPowerOfTwo len = push_bit (bitsLen len) 1"

text \<open>
  The loop of \<open>breakPatterns_func\<close>: three swaps of the positions \<open>idx\<close>, \<open>idx + 1\<close>,
  \<open>idx + 2\<close> around the middle of the range with pseudo-random positions of the range.
\<close>

function breakLoop ::
  "'a list \<Rightarrow> nat \<Rightarrow> nat \<Rightarrow> 64 word \<Rightarrow> nat \<Rightarrow> 64 word \<Rightarrow> nat \<Rightarrow> 'a list" where
  "breakLoop xs a len modulus idx random i =
     (if i < 3 then
        (let random = xorshiftNext random;
             other = unat (random AND (modulus - 1));
             other = (if other \<ge> len then other - len else other)
         in breakLoop (dataSwap xs (idx + i) (a + other)) a len modulus idx random (i + 1))
      else xs)"
  by pat_completeness auto
termination by (relation "measure (\<lambda>(xs, a, len, modulus, idx, random, i). 3 - i)") auto
declare breakLoop.simps [simp del]

definition breakPatterns_func :: "'a list \<Rightarrow> nat \<Rightarrow> nat \<Rightarrow> 'a list" where
  "breakPatterns_func xs a b =
     (let len = b - a in
      if len \<ge> 8 then
        breakLoop xs a len (nextPowerOfTwo len) (a + (len div 4) * 2 - 1)
          (of_nat len) 0
      else xs)"

datatype sortedHint = unknownHint | increasingHint | decreasingHint

definition order2_func ::
  "('a \<Rightarrow> 'a \<Rightarrow> bool) \<Rightarrow> 'a list \<Rightarrow> nat \<Rightarrow> nat \<Rightarrow> nat \<Rightarrow> nat \<times> nat \<times> nat" where
  "order2_func lt xs a b swaps = (if dataLess lt xs b a then (b, a, swaps + 1) else (a, b, swaps))"

definition median_func ::
  "('a \<Rightarrow> 'a \<Rightarrow> bool) \<Rightarrow> 'a list \<Rightarrow> nat \<Rightarrow> nat \<Rightarrow> nat \<Rightarrow> nat \<Rightarrow> nat \<times> nat" where
  "median_func lt xs a b c swaps =
     (let (a, b, swaps) = order2_func lt xs a b swaps;
          (b, c, swaps) = order2_func lt xs b c swaps;
          (a, b, swaps) = order2_func lt xs a b swaps
      in (b, swaps))"

definition medianAdjacent_func ::
  "('a \<Rightarrow> 'a \<Rightarrow> bool) \<Rightarrow> 'a list \<Rightarrow> nat \<Rightarrow> nat \<Rightarrow> nat \<times> nat" where
  "medianAdjacent_func lt xs a swaps = median_func lt xs (a - 1) a (a + 1) swaps"

definition shortestNinther :: nat where "shortestNinther = 50"
definition maxSwaps :: nat where "maxSwaps = 4 * 3"

definition choosePivot_func ::
  "('a \<Rightarrow> 'a \<Rightarrow> bool) \<Rightarrow> 'a list \<Rightarrow> nat \<Rightarrow> nat \<Rightarrow> nat \<times> sortedHint" where
  "choosePivot_func lt xs a b =
     (let l = b - a;
          swaps = 0;
          i = a + l div 4 * 1;
          j = a + l div 4 * 2;
          k = a + l div 4 * 3;
          (j, swaps) =
            (if l \<ge> 8 then
               (let (i, j, k, swaps) =
                  (if l \<ge> shortestNinther then
                     (let (i, swaps) = medianAdjacent_func lt xs i swaps;
                          (j, swaps) = medianAdjacent_func lt xs j swaps;
                          (k, swaps) = medianAdjacent_func lt xs k swaps
                      in (i, j, k, swaps))
                   else (i, j, k, swaps))
                in median_func lt xs i j k swaps)
             else (j, swaps))
      in if swaps = 0 then (j, increasingHint)
         else if swaps = maxSwaps then (j, decreasingHint)
         else (j, unknownHint))"

function reverseLoop :: "'a list \<Rightarrow> nat \<Rightarrow> nat \<Rightarrow> 'a list" where
  "reverseLoop xs i j = (if i < j then reverseLoop (dataSwap xs i j) (i + 1) (j - 1) else xs)"
  by pat_completeness auto
termination by (relation "measure (\<lambda>(xs, i, j). j - i)") auto
declare reverseLoop.simps [simp del]

definition reverseRange_func :: "'a list \<Rightarrow> nat \<Rightarrow> nat \<Rightarrow> 'a list" where
  "reverseRange_func xs a b = reverseLoop xs a (b - 1)"

definition maxInsertion :: nat where "maxInsertion = 12"

function pdqsortLoop ::
  "('a \<Rightarrow> 'a \<Rightarrow> bool) \<Rightarrow> 'a list \<Rightarrow> nat \<Rightarrow> nat \<Rightarrow> nat \<Rightarrow> bool \<Rightarrow> bool \<Rightarrow> 'a list" where
  "pdqsortLoop lt xs a b limit wasBalanced wasPartitioned =
     (let len = b - a in
      if len \<le> maxInsertion then insertionSort_func lt xs a b
      else if limit = 0 then heapSort_func lt xs a b
      else
        let (xs, limit) =
              (if \<not> wasBalanced then (breakPatterns_func xs a b, limit - 1) else (xs, limit));
            (pivot, hint) = choosePivot_func lt xs a b;
            (xs, pivot, hint) =
              (if hint = decreasingHint
               then (reverseRange_func xs a b, (b - 1) - (pivot - a), increasingHint)
               else (xs, pivot, hint));
            (xs, sorted) =
              (if wasBalanced \<and> wasPartitioned \<and> hint = increasingHint
               then partialInsertionSort_func lt xs a b else (xs, False))
        in if sorted then xs
           else if a > 0 \<and> \<not> dataLess lt xs (a - 1) pivot then
             (let (xs, mid) = partitionEqual_func lt xs a b pivot
              in pdqsortLoop lt xs mid b limit wasBalanced wasPartitioned)
           else
             (let (xs, mid, alreadyPartitioned) = partition_func lt xs a b pivot;
                  leftLen = mid - a; rightLen = b - mid;
                  balanceThreshold = len div 8
              in if leftLen < rightLen then
                   pdqsortLoop lt (pdqsortLoop lt xs a mid limit True True) (mid + 1) b limit
                     (leftLen \<ge> balanceThreshold) alreadyPartitioned
                 else
                   pdqsortLoop lt (pdqsortLoop lt xs (mid + 1) b limit True True) a mid limit
                     (rightLen \<ge> balanceThreshold) alreadyPartitioned))"
  by pat_completeness auto

termination
proof (relation "measure (\<lambda>(lt, xs, a, b, limit, wb, wp). b - a)", goal_cases)
  case 1
  show ?case by simp
next
  case (2 lt xs a b limit wb wp len r1 xs1 limit1 r2 pivot hint r3 xs2 ph pivot2 hint2 r4 xs3
      sorted r5 xs4 mid)
  then have "partitionEqual_func lt xs3 a b pivot2 = (xs4, mid)" by simp
  then have "a < mid" by (rule partitionEqual_func_mid)
  then show ?case using 2 by (auto simp: maxInsertion_def)
next
  case (3 lt xs a b limit wb wp len r1 xs1 limit1 r2 pivot hint r3 xs2 ph pivot2 hint2 r4 xs3
      sorted r5 xs4 r6 mid already leftLen rightLen thr)
  then have "partition_func lt xs3 a b pivot2 = (xs4, mid, already)" by simp
  moreover have "a < b" using 3 by (auto simp: maxInsertion_def)
  ultimately have "a \<le> mid \<and> mid < b" by (rule partition_func_mid [rotated])
  then show ?case by auto
next
  case (4 lt xs a b limit wb wp len r1 xs1 limit1 r2 pivot hint r3 xs2 ph pivot2 hint2 r4 xs3
      sorted r5 xs4 r6 mid already leftLen rightLen thr)
  then have "partition_func lt xs3 a b pivot2 = (xs4, mid, already)" by simp
  moreover have "a < b" using 4 by (auto simp: maxInsertion_def)
  ultimately have "a \<le> mid \<and> mid < b" by (rule partition_func_mid [rotated])
  then show ?case by auto
next
  case (5 lt xs a b limit wb wp len r1 xs1 limit1 r2 pivot hint r3 xs2 ph pivot2 hint2 r4 xs3
      sorted r5 xs4 r6 mid already leftLen rightLen thr)
  then have "partition_func lt xs3 a b pivot2 = (xs4, mid, already)" by simp
  moreover have "a < b" using 5 by (auto simp: maxInsertion_def)
  ultimately have "a \<le> mid \<and> mid < b" by (rule partition_func_mid [rotated])
  then show ?case by auto
next
  case (6 lt xs a b limit wb wp len r1 xs1 limit1 r2 pivot hint r3 xs2 ph pivot2 hint2 r4 xs3
      sorted r5 xs4 r6 mid already leftLen rightLen thr)
  then have "partition_func lt xs3 a b pivot2 = (xs4, mid, already)" by simp
  moreover have "a < b" using 6 by (auto simp: maxInsertion_def)
  ultimately have "a \<le> mid \<and> mid < b" by (rule partition_func_mid [rotated])
  then show ?case by auto
qed
declare pdqsortLoop.simps [simp del]

definition pdqsort_func ::
  "('a \<Rightarrow> 'a \<Rightarrow> bool) \<Rightarrow> 'a list \<Rightarrow> nat \<Rightarrow> nat \<Rightarrow> nat \<Rightarrow> 'a list" where
  "pdqsort_func lt xs a b limit = pdqsortLoop lt xs a b limit True True"

definition Slice :: "('a \<Rightarrow> 'a \<Rightarrow> bool) \<Rightarrow> 'a list \<Rightarrow> 'a list" where
  "Slice lt x = (let len = length x; limit = bitsLen len in pdqsort_func lt x 0 len limit)"


section \<open>A concrete environment\<close>

text \<open>
  A small site to run the functions on: two posts, one thought, pure stand-ins for the
  libraries. The title-caser handles ASCII letters and spaces; the sort is a stable
  insertion sort; paths are joined with a slash.
\<close>

definition asciiUpper :: "char \<Rightarrow> char" where
  "asciiUpper c =
     (if 97 \<le> (of_char c :: nat) \<and> (of_char c :: nat) \<le> 122
      then char_of ((of_char c :: nat) - 32) else c)"

definition asciiLower :: "char \<Rightarrow> char" where
  "asciiLower c =
     (if 65 \<le> (of_char c :: nat) \<and> (of_char c :: nat) \<le> 90
      then char_of ((of_char c :: nat) + 32) else c)"

fun asciiTitle :: "bool \<Rightarrow> string \<Rightarrow> string" where
  "asciiTitle start [] = []"
| "asciiTitle start (c # cs) =
     (if c = CHR '' '' then c # asciiTitle True cs
      else (if start then asciiUpper c else asciiLower c) # asciiTitle False cs)"

fun insertBy :: "('a \<Rightarrow> 'a \<Rightarrow> bool) \<Rightarrow> 'a \<Rightarrow> 'a list \<Rightarrow> 'a list" where
  "insertBy lt x [] = [x]"
| "insertBy lt x (y # ys) = (if lt y x then y # insertBy lt x ys else x # y # ys)"

definition stableSort :: "('a \<Rightarrow> 'a \<Rightarrow> bool) \<Rightarrow> 'a list \<Rightarrow> 'a list" where
  "stableSort lt xs = foldr (insertBy lt) xs []"

fun joinSlash :: "string list \<Rightarrow> string" where
  "joinSlash [] = []"
| "joinSlash [e] = e"
| "joinSlash (e # es) = e @ ''/'' @ joinSlash es"

definition dirOf :: "string \<Rightarrow> string" where
  "dirOf path = rev (drop 1 (dropWhile (\<lambda>c. \<not> IsPathSeparator c) (rev path)))"

definition siteFiles :: "(string \<times> string \<times> time) list" where
  "siteFiles =
     [(''posts/my-first_post.md'', ''plain body'', 100),
      (''posts/dated.md'', ''FM dated'', 200),
      (''thoughts/idea.md'', ''FM broken'', 300),
      (''nav/about.md'', ''about me'', 50)]"

definition siteParse :: "string \<Rightarrow> error + (PostFrontmatter \<times> string)" where
  "siteParse s =
     (if s = ''FM dated'' then Inr (\<lparr>fmTitle = ''Dated Post'', fmDate = 500\<rparr>, ''dated body'')
      else if s = ''FM broken'' then Inl (ErrOther ''yaml'')
      else Inr (emptyFrontmatter, s))"

definition siteGlob :: "string \<Rightarrow> error + string list" where
  "siteGlob pattern =
     (if pattern = ''posts/*.md'' then Inr [''posts/dated.md'', ''posts/my-first_post.md'']
      else if pattern = ''thoughts/*.md'' then Inr [''thoughts/idea.md'']
      else Inr [])"

fun sitePage :: "page \<Rightarrow> string" where
  "sitePage (PostPage p) = Title p @ '': '' @ Content p"
| "sitePage (ListPage t ps) = t @ '': '' @ concat (map (\<lambda>p. Slug p @ '' '') ps)"
| "sitePage (AboutPage t c) = t @ '': '' @ c"

text \<open>The same site with a Markdown renderer that fails on one body.\<close>

definition siteConvert :: "string \<Rightarrow> error + string" where
  "siteConvert md =
     (if md = ''plain body'' then Inl (ErrOther ''convert'') else Inr (''<p>'' @ md @ ''</p>''))"

text \<open>A stat that is denied on one path and otherwise reads \<open>siteFiles\<close>.\<close>

definition siteStatDenied :: "string \<Rightarrow> error + time" where
  "siteStatDenied p =
     (if p = ''posts/dated.md'' then Inl ErrPermission
      else case map_of siteFiles p of None \<Rightarrow> Inl ErrNotExist | Some (bytes, t) \<Rightarrow> Inr t)"

definition site :: env where
  "site =
     \<lparr>osReadFile = (\<lambda>p. case map_of siteFiles p of
                          None \<Rightarrow> Inl ErrNotExist | Some (bytes, t) \<Rightarrow> Inr bytes),
      osStat = (\<lambda>p. case map_of siteFiles p of
                      None \<Rightarrow> Inl ErrNotExist | Some (bytes, t) \<Rightarrow> Inr t),
      filepathGlob = siteGlob,
      filepathJoin = joinSlash,
      filepathDir = dirOf,
      frontmatterParse = siteParse,
      markdownConvert = (\<lambda>md. Inr (''<p>'' @ md @ ''</p>'')),
      casesTitle = asciiTitle True,
      sortSlice = stableSort,
      templateParseFiles = (\<lambda>names. None),
      templateExecute = (\<lambda>names data. ([sitePage data], None)),
      urlParse = (\<lambda>u. Inr u),
      osMkdirAll = (\<lambda>d. None),
      osWriteFile = (\<lambda>p b. None)\<rparr>"

definition siteBroken :: env where
  "siteBroken = site\<lparr>markdownConvert := siteConvert\<rparr>"

definition siteDenied :: env where
  "siteDenied = site\<lparr>osStat := siteStatDenied\<rparr>"

text \<open>
  The world a second run finds: the site with the files the first run wrote into
  \<open>public\<close>, each with a new modification time.
\<close>

definition siteRerun :: env where
  "siteRerun =
     site\<lparr>osReadFile := (\<lambda>p. case applyOps (fst (GenerateStaticSite site ''public'')) Map.empty p of
                              Some bytes \<Rightarrow> Inr bytes
                            | None \<Rightarrow> osReadFile site p),
          osStat := (\<lambda>p. case applyOps (fst (GenerateStaticSite site ''public'')) Map.empty p of
                          Some bytes \<Rightarrow> Inr 1000
                        | None \<Rightarrow> osStat site p)\<rparr>"

text \<open>
  Thirteen posts without front matter, sorted with the standard library's \<open>sort.Slice\<close>:
  the first file in glob order is the oldest, the other twelve share one modification time.
\<close>

definition thirteenFiles :: "string list" where
  "thirteenFiles =
     [''posts/p00.md'', ''posts/p01.md'', ''posts/p02.md'', ''posts/p03.md'',
      ''posts/p04.md'', ''posts/p05.md'', ''posts/p06.md'', ''posts/p07.md'',
      ''posts/p08.md'', ''posts/p09.md'', ''posts/p10.md'', ''posts/p11.md'',
      ''posts/p12.md'']"

definition siteThirteen :: env where
  "siteThirteen =
     site\<lparr>osReadFile := (\<lambda>p. if p \<in> set thirteenFiles then Inr ''text'' else Inl ErrNotExist),
          osStat := (\<lambda>p. if p = ''posts/p00.md'' then Inr 1
                          else if p \<in> set thirteenFiles then Inr 2 else Inl ErrNotExist),
          filepathGlob := (\<lambda>pattern. if pattern = ''posts/*.md'' then Inr thirteenFiles
                                       else Inr []),
          sortSlice := Slice\<rparr>"

definition plainPost :: "string \<Rightarrow> time \<Rightarrow> PostData" where
  "plainPost slug date =
     \<lparr>Title = asciiTitle True slug, Date = date, Slug = slug, Content = ''<p>text</p>''\<rparr>"

text \<open>
  What the builder needs of \<open>sort.Slice\<close> with the date comparison: the result holds the
  same records and no record is followed by one with a later date.
\<close>

definition sortsByDate ::
  "((PostData \<Rightarrow> PostData \<Rightarrow> bool) \<Rightarrow> PostData list \<Rightarrow> PostData list) \<Rightarrow> bool" where
  "sortsByDate srt =
     (\<forall>xs. mset (srt dateAfter xs) = mset xs \<and>
           sorted_wrt (\<lambda>p q. \<not> dateAfter q p) (srt dateAfter xs))"

section \<open>Invariants of the sort\<close>

text \<open>\<open>ys\<close> holds the elements of \<open>xs\<close>, moved only inside the positions \<open>[a, b)\<close>.\<close>

definition permutedIn :: "'a list \<Rightarrow> 'a list \<Rightarrow> nat \<Rightarrow> nat \<Rightarrow> bool" where
  "permutedIn xs ys a b \<longleftrightarrow>
     length ys = length xs \<and> mset ys = mset xs \<and>
     (\<forall>i<length xs. i < a \<or> b \<le> i \<longrightarrow> ys ! i = xs ! i)"

text \<open>The positions \<open>[a, b)\<close> of \<open>xs\<close> are in ascending order of the key \<open>k\<close>.\<close>

definition sortedRange :: "('a \<Rightarrow> int) \<Rightarrow> 'a list \<Rightarrow> nat \<Rightarrow> nat \<Rightarrow> bool" where
  "sortedRange k xs a b \<longleftrightarrow> (\<forall>i j. a \<le> i \<and> i < j \<and> j < b \<longrightarrow> k (xs ! i) \<le> k (xs ! j))"

text \<open>The comparison \<open>lt\<close> is the strict order of an integer key.\<close>

definition keyOrder :: "('a \<Rightarrow> 'a \<Rightarrow> bool) \<Rightarrow> ('a \<Rightarrow> int) \<Rightarrow> bool" where
  "keyOrder lt k \<longleftrightarrow> (\<forall>x y. lt x y = (k x < k y))"

text \<open>
  What \<open>pdqsort_func\<close> relies on when \<open>a > 0\<close>: the element before the range is a lower
  bound of the range.
\<close>

definition lowerBounded :: "('a \<Rightarrow> int) \<Rightarrow> 'a list \<Rightarrow> nat \<Rightarrow> nat \<Rightarrow> bool" where
  "lowerBounded k xs a b \<longleftrightarrow> (a > 0 \<longrightarrow> (\<forall>n. a \<le> n \<and> n < b \<longrightarrow> k (xs ! (a - 1)) \<le> k (xs ! n)))"

text \<open>
  The heap of \<open>heapSort_func\<close>, laid out from position \<open>first\<close>: node \<open>r\<close> has the children
  \<open>2 * r + 1\<close> and \<open>2 * r + 2\<close>, and from node \<open>lo\<close> on no child below \<open>hi\<close> exceeds its parent.
\<close>

definition isChild :: "nat \<Rightarrow> nat \<Rightarrow> bool" where
  "isChild r c \<longleftrightarrow> c = 2 * r + 1 \<or> c = 2 * r + 2"

definition heapFrom :: "('a \<Rightarrow> int) \<Rightarrow> 'a list \<Rightarrow> nat \<Rightarrow> nat \<Rightarrow> nat \<Rightarrow> bool" where
  "heapFrom k xs first hi lo \<longleftrightarrow>
     (\<forall>r c. lo \<le> r \<and> isChild r c \<and> c < hi \<longrightarrow> k (xs ! (first + c)) \<le> k (xs ! (first + r)))"

section \<open>Helper lemmas\<close>

lemma IsNotExist_iff: "IsNotExist e \<longleftrightarrow> e = Some ErrNotExist"
  by (cases e rule: IsNotExist.cases) simp_all

lemma loadEach_Inr_iff:
  "loadEach E files acc = Inr posts \<longleftrightarrow>
     (\<exists>ps. map (LoadPostFromFile E) files = map Inr ps \<and> posts = acc @ ps)"
proof (induction files arbitrary: acc)
  case Nil
  show ?case by auto
next
  case (Cons f fs)
  show ?case
  proof (cases "LoadPostFromFile E f")
    case (Inl e)
    then show ?thesis by auto
  next
    case (Inr post)
    then show ?thesis
      by (auto simp: Cons.IH map_eq_Cons_conv)
  qed
qed

lemma loadEach_first_failure:
  assumes "\<forall>g\<in>set pre. \<exists>post. LoadPostFromFile E g = Inr post"
    and "LoadPostFromFile E f = Inl err"
  shows "loadEach E (pre @ f # rest) acc = Inl err"
  using assms by (induction pre arbitrary: acc) auto

lemma loadEach_total:
  "(\<exists>posts. loadEach E files acc = Inr posts) \<longleftrightarrow>
   (\<forall>f\<in>set files. \<exists>post. LoadPostFromFile E f = Inr post)"
proof (induction files arbitrary: acc)
  case Nil
  show ?case by simp
next
  case (Cons f fs)
  show ?case by (cases "LoadPostFromFile E f") (auto simp: Cons.IH)
qed

lemma andThen_Done:
  "andThen r1 r2 = (ops, Done) \<longleftrightarrow>
     (\<exists>o1 o2. r1 = (o1, Done) \<and> r2 = (o2, Done) \<and> ops = o1 @ o2)"
  by (cases r1; cases r2) (auto simp: andThen_def split: ending.splits)

lemma writtenFiles_append: "writtenFiles (a @ b) = writtenFiles a @ writtenFiles b"
  by (induction a rule: writtenFiles.induct) auto

lemma generatePage_Done:
  assumes "generatePage E out fn h = (ops, Done)"
  shows "writtenFiles ops = [(filepathJoin E [out, fn], bufferOf (fst h))]"
  using assms
  by (cases h)
     (auto simp: generatePage_def andThen_Done mkdirAll_def writeFile_def Let_def
           split: option.splits)

lemma generatePosts_Done:
  "generatePosts E out files = (ops, Done) \<Longrightarrow> writtenFiles ops = map (postOutput E out) files"
proof (induction files arbitrary: ops)
  case Nil
  then show ?case by simp
next
  case (Cons f fs)
  then obtain o1 o2 where a: "generatePost E out f = (o1, Done)"
    and b: "generatePosts E out fs = (o2, Done)" and c: "ops = o1 @ o2"
    by (auto simp: andThen_Done)
  have "writtenFiles o1 = [postOutput E out f]"
    using a generatePage_Done by (simp add: generatePost_def postOutput_def Let_def)
  then show ?case using Cons.IH [OF b] c by (simp add: writtenFiles_append)
qed

lemma generateGlob_Done:
  "generateGlob E out pat = (ops, Done) \<Longrightarrow>
     \<exists>files. filepathGlob E pat = Inr files \<and> writtenFiles ops = map (postOutput E out) files"
  by (auto simp: generateGlob_def generatePosts_Done split: sum.splits)

lemma applyOp_add: "applyOp x t = t ++ applyOp x Map.empty"
  by (cases x) (auto simp: map_add_def fun_eq_iff)

lemma applyOps_add: "applyOps ops t = t ++ applyOps ops Map.empty"
  unfolding applyOps_def
proof (induction ops arbitrary: t)
  case Nil
  show ?case by simp
next
  case (Cons x xs)
  have "fold applyOp (x # xs) t = applyOp x t ++ fold applyOp xs Map.empty"
    using Cons.IH [of "applyOp x t"] by simp
  also have "\<dots> = t ++ (applyOp x Map.empty ++ fold applyOp xs Map.empty)"
    using applyOp_add [of x t] by (simp add: map_add_assoc)
  also have "\<dots> = t ++ fold applyOp (x # xs) Map.empty"
    using Cons.IH [of "applyOp x Map.empty"] by simp
  finally show ?case .
qed

lemma mset_insertBy: "mset (insertBy lt x ys) = add_mset x (mset ys)"
  by (induction ys) auto

lemma set_insertBy: "set (insertBy lt x ys) = insert x (set ys)"
  by (induction ys) auto

lemma sorted_insertBy_date:
  "sorted_wrt (\<lambda>p q. \<not> dateAfter q p) ys \<Longrightarrow>
   sorted_wrt (\<lambda>p q. \<not> dateAfter q p) (insertBy dateAfter x ys)"
  by (induction ys) (auto simp: set_insertBy dateAfter_def)

lemma sortsByDate_stableSort: "sortsByDate stableSort"
  unfolding sortsByDate_def stableSort_def
proof (intro allI conjI)
  fix xs :: "PostData list"
  show "mset (foldr (insertBy dateAfter) xs []) = mset xs"
    by (induction xs) (auto simp: mset_insertBy)
  show "sorted_wrt (\<lambda>p q. \<not> dateAfter q p) (foldr (insertBy dateAfter) xs [])"
    by (induction xs) (auto simp: sorted_insertBy_date)
qed

subsection \<open>What a run reads\<close>

lemma LoadPostFromFile_same:
  "sameLibraries E E' \<Longrightarrow> sameFile E E' p \<Longrightarrow> LoadPostFromFile E' p = LoadPostFromFile E p"
  by (auto simp: LoadPostFromFile_def parseOrEmpty_def CleanTitle_def sameLibraries_def
        sameFile_def Let_def split: sum.splits prod.splits)

lemma loadEach_same:
  "sameLibraries E E' \<Longrightarrow> \<forall>p \<in> set files. sameFile E E' p \<Longrightarrow>
   loadEach E' files acc = loadEach E files acc"
  by (induction files arbitrary: acc) (simp_all add: LoadPostFromFile_same split: sum.splits)

lemma loadPostsFromDirectory_same:
  assumes "sameLibraries E E'" and "filepathGlob E' pattern = filepathGlob E pattern"
    and "\<forall>p \<in> set (globMatches E pattern). sameFile E E' p"
  shows "loadPostsFromDirectory E' pattern = loadPostsFromDirectory E pattern"
proof (cases "filepathGlob E pattern")
  case (Inl err)
  then show ?thesis using assms(2) by (simp add: loadPostsFromDirectory_def)
next
  case (Inr files)
  then have "loadEach E' files [] = loadEach E files []"
    using assms(1,3) by (intro loadEach_same) (simp_all add: globMatches_def)
  moreover have "sortSlice E' = sortSlice E" using assms(1) by (simp add: sameLibraries_def)
  ultimately show ?thesis
    using Inr assms(2) by (auto simp: loadPostsFromDirectory_def split: sum.splits)
qed

lemma renderTemplate_same:
  "sameTemplates E E' names \<Longrightarrow> renderTemplate E' names data = renderTemplate E names data"
  by (auto simp: renderTemplate_def sameTemplates_def split: option.splits prod.splits)

lemma sameInputs_libraries: "sameInputs E E' \<Longrightarrow> sameLibraries E E'"
  by (simp add: sameInputs_def)

lemma sameInputs_join: "sameInputs E E' \<Longrightarrow> filepathJoin E' = filepathJoin E"
  by (simp add: sameInputs_def sameLibraries_def)

lemma sameInputs_template:
  "sameInputs E E' \<Longrightarrow>
   name \<in> {''home.gohtml'', ''about.gohtml'', ''thoughts.gohtml'', ''post.gohtml''} \<Longrightarrow>
   renderTemplate E' [filepathJoin E [''templates'', ''base.gohtml''],
                      filepathJoin E [''templates'', name]] data =
   renderTemplate E [filepathJoin E [''templates'', ''base.gohtml''],
                     filepathJoin E [''templates'', name]] data"
  by (rule renderTemplate_same) (auto simp: sameInputs_def templateSets_def)

lemma HomeHandler_same:
  assumes "sameInputs E E'"
  shows "HomeHandler E' = HomeHandler E"
proof -
  have "\<forall>p \<in> set (globMatches E ''posts/*.md''). sameFile E E' p"
    using assms by (auto simp: sameInputs_def sourceFiles_def Let_def)
  then have "loadPostsFromDirectory E' ''posts/*.md'' = loadPostsFromDirectory E ''posts/*.md''"
    using assms by (intro loadPostsFromDirectory_same) (simp_all add: sameInputs_def)
  then show ?thesis
    using sameInputs_template [OF assms, of "''home.gohtml''"] sameInputs_join [OF assms]
    by (auto simp: HomeHandler_def postsHandler_def LoadBlogPosts_def split: sum.splits)
qed

lemma ThoughtsHandler_same:
  assumes "sameInputs E E'"
  shows "ThoughtsHandler E' = ThoughtsHandler E"
proof -
  have "\<forall>p \<in> set (globMatches E ''thoughts/*.md''). sameFile E E' p"
    using assms by (auto simp: sameInputs_def sourceFiles_def Let_def)
  then have "loadPostsFromDirectory E' ''thoughts/*.md'' =
             loadPostsFromDirectory E ''thoughts/*.md''"
    using assms by (intro loadPostsFromDirectory_same) (simp_all add: sameInputs_def)
  then show ?thesis
    using sameInputs_template [OF assms, of "''thoughts.gohtml''"] sameInputs_join [OF assms]
    by (auto simp: ThoughtsHandler_def postsHandler_def LoadThoughtsPosts_def
          split: sum.splits)
qed

lemma AboutHandler_same:
  assumes "sameInputs E E'"
  shows "AboutHandler E' = AboutHandler E"
proof -
  have "sameFile E E' ''nav/about.md''"
    using assms by (simp add: sameInputs_def sourceFiles_def Let_def)
  then have "RenderMarkdown E' ''nav/about.md'' = RenderMarkdown E ''nav/about.md''"
    using sameInputs_libraries [OF assms]
    by (auto simp: RenderMarkdown_def sameFile_def sameLibraries_def Let_def
          split: sum.splits prod.splits)
  then show ?thesis
    using sameInputs_template [OF assms, of "''about.gohtml''"] sameInputs_join [OF assms]
    by (auto simp: AboutHandler_def split: sum.splits)
qed

lemma LoadPost_same:
  assumes "sameLibraries E E'"
    and "sameFile E E' (filepathJoin E [''posts'', slug @ ''.md''])"
    and "sameFile E E' (filepathJoin E [''thoughts'', slug @ ''.md''])"
  shows "LoadPost E' slug = LoadPost E slug"
proof -
  have j: "filepathJoin E' = filepathJoin E" using assms(1) by (simp add: sameLibraries_def)
  have "statErr E' (filepathJoin E [''posts'', slug @ ''.md'']) =
        statErr E (filepathJoin E [''posts'', slug @ ''.md''])"
    and "statErr E' (filepathJoin E [''thoughts'', slug @ ''.md'']) =
         statErr E (filepathJoin E [''thoughts'', slug @ ''.md''])"
    using assms(2,3) by (simp_all add: statErr_def sameFile_def)
  then show ?thesis
    using LoadPostFromFile_same [OF assms(1,2)] LoadPostFromFile_same [OF assms(1,3)]
    by (auto simp: LoadPost_def j Let_def split: option.splits)
qed

lemma PostHandler_same:
  assumes "sameInputs E E'"
    and "file \<in> set (globMatches E ''posts/*.md'' @ globMatches E ''thoughts/*.md'')"
  shows "PostHandler E' (postRequest E' (postSlug file)) =
         PostHandler E (postRequest E (postSlug file))"
proof -
  note L = sameInputs_libraries [OF assms(1)]
  have r: "postRequest E' (postSlug file) = postRequest E (postSlug file)"
    using L by (simp add: postRequest_def sameLibraries_def)
  show ?thesis
  proof (cases "postRequest E (postSlug file)")
    case None
    then show ?thesis by (simp add: r PostHandler_def)
  next
    case (Some path)
    have "set (lookupFiles E file) \<subseteq> set (sourceFiles E)"
      using assms(2) by (auto simp: sourceFiles_def Let_def)
    then have "\<forall>p \<in> set (lookupFiles E file). sameFile E E' p"
      using assms(1) by (auto simp: sameInputs_def)
    then have "LoadPost E' (drop (length ''/post/'') path) =
               LoadPost E (drop (length ''/post/'') path)"
      using Some by (intro LoadPost_same [OF L]) (simp_all add: lookupFiles_def)
    then show ?thesis
      using sameInputs_template [OF assms(1), of "''post.gohtml''"]
        sameInputs_join [OF assms(1)]
      by (auto simp: r Some PostHandler_def Let_def split: sum.splits prod.splits)
  qed
qed

lemma pageOps_same:
  "sameLibraries E E' \<Longrightarrow> h' = h \<Longrightarrow> pageOps E' out fn h' = pageOps E out fn h"
  by (simp add: pageOps_def sameLibraries_def)

lemma postOps_same:
  assumes "sameInputs E E'"
    and "file \<in> set (globMatches E ''posts/*.md'' @ globMatches E ''thoughts/*.md'')"
  shows "postOps E' out file = postOps E out file"
  unfolding postOps_def
  using pageOps_same [OF sameInputs_libraries [OF assms(1)] PostHandler_same [OF assms]]
    sameInputs_join [OF assms(1)]
  by simp

lemma siteOps_same:
  assumes "sameInputs E E'"
  shows "siteOps E' out = siteOps E out"
proof -
  note L = sameInputs_libraries [OF assms]
  have g: "globMatches E' ''posts/*.md'' = globMatches E ''posts/*.md''"
    "globMatches E' ''thoughts/*.md'' = globMatches E ''thoughts/*.md''"
    using assms by (simp_all add: sameInputs_def globMatches_def)
  have m: "map (postOps E' out) (globMatches E ''posts/*.md'') =
        map (postOps E out) (globMatches E ''posts/*.md'')"
    "map (postOps E' out) (globMatches E ''thoughts/*.md'') =
        map (postOps E out) (globMatches E ''thoughts/*.md'')"
    by (rule map_cong [OF refl], simp add: postOps_same [OF assms])+
  have p: "pageOps E' out ''index.html'' (HomeHandler E') =
           pageOps E out ''index.html'' (HomeHandler E)"
    "pageOps E' out ''about.html'' (AboutHandler E') =
     pageOps E out ''about.html'' (AboutHandler E)"
    "pageOps E' out ''thoughts.html'' (ThoughtsHandler E') =
     pageOps E out ''thoughts.html'' (ThoughtsHandler E)"
    by (rule pageOps_same [OF L HomeHandler_same [OF assms]],
        rule pageOps_same [OF L AboutHandler_same [OF assms]],
        rule pageOps_same [OF L ThoughtsHandler_same [OF assms]])
  show ?thesis unfolding siteOps_def g m p ..
qed

lemma generatePage_Done_ops:
  assumes "generatePage E out fn h = (ops, Done)"
  shows "ops = pageOps E out fn h"
  using assms
  by (cases h)
     (auto simp: generatePage_def andThen_Done mkdirAll_def writeFile_def Let_def pageOps_def
           split: option.splits)

lemma generatePosts_Done_ops:
  "generatePosts E out files = (ops, Done) \<Longrightarrow> ops = concat (map (postOps E out) files)"
proof (induction files arbitrary: ops)
  case Nil
  then show ?case by simp
next
  case (Cons f fs)
  then obtain o1 o2 where a: "generatePost E out f = (o1, Done)"
    and b: "generatePosts E out fs = (o2, Done)" and c: "ops = o1 @ o2"
    by (auto simp: andThen_Done)
  have "o1 = postOps E out f"
    using a by (simp add: generatePost_def postOps_def Let_def generatePage_Done_ops)
  then show ?case using Cons.IH [OF b] c by simp
qed

lemma generateGlob_Done_ops:
  "generateGlob E out pat = (ops, Done) \<Longrightarrow> ops = concat (map (postOps E out) (globMatches E pat))"
  by (auto simp: generateGlob_def globMatches_def generatePosts_Done_ops split: sum.splits)

lemma GenerateStaticSite_Done_ops:
  assumes "GenerateStaticSite E out = (ops, Done)"
  shows "ops = siteOps E out"
proof -
  from assms obtain o0 o1 o2 o3 o4 o5 where
    m: "mkdirAll E out = (o0, Done)"
    and h: "generatePage E out ''index.html'' (HomeHandler E) = (o1, Done)"
    and a: "generatePage E out ''about.html'' (AboutHandler E) = (o2, Done)"
    and t: "generatePage E out ''thoughts.html'' (ThoughtsHandler E) = (o3, Done)"
    and p: "generateGlob E out ''posts/*.md'' = (o4, Done)"
    and q: "generateGlob E out ''thoughts/*.md'' = (o5, Done)"
    and ops: "ops = o0 @ o1 @ o2 @ o3 @ o4 @ o5"
    unfolding GenerateStaticSite_def andThen_Done by blast
  have "o0 = [MkdirAllOp out]"
    using m by (auto simp: mkdirAll_def split: option.splits)
  then show ?thesis
    unfolding ops siteOps_def
    using generatePage_Done_ops [OF h] generatePage_Done_ops [OF a] generatePage_Done_ops [OF t]
      generateGlob_Done_ops [OF p] generateGlob_Done_ops [OF q]
    by simp
qed

lemma applyOps_twice: "applyOps ops (applyOps ops t) = applyOps ops t"
  by (metis applyOps_add map_add_assoc map_add_subsumed2 map_le_refl)

section \<open>sort.Slice sorts\<close>

subsection \<open>Swaps permute a range\<close>

lemma dataLess_key: "keyOrder lt k \<Longrightarrow> dataLess lt xs i j = (k (xs ! i) < k (xs ! j))"
  by (simp add: dataLess_def keyOrder_def)

lemma length_dataSwap [simp]: "length (dataSwap xs i j) = length xs"
  by (simp add: dataSwap_def)

lemma nth_dataSwap:
  "i < length xs \<Longrightarrow> j < length xs \<Longrightarrow>
   dataSwap xs i j ! n = (if n = j then xs ! i else if n = i then xs ! j else xs ! n)"
  by (auto simp: dataSwap_def nth_list_update)

lemma mset_dataSwap: "i < length xs \<Longrightarrow> j < length xs \<Longrightarrow> mset (dataSwap xs i j) = mset xs"
  unfolding dataSwap_def by (simp add: mset_swap)

lemma permutedIn_refl [simp]: "permutedIn xs xs a b"
  by (simp add: permutedIn_def)

lemma permutedIn_trans:
  "permutedIn xs ys a b \<Longrightarrow> permutedIn ys zs a b \<Longrightarrow> permutedIn xs zs a b"
  by (auto simp: permutedIn_def)

lemma permutedIn_mono:
  "permutedIn xs ys a' b' \<Longrightarrow> a \<le> a' \<Longrightarrow> b' \<le> b \<Longrightarrow> permutedIn xs ys a b"
  by (auto simp: permutedIn_def)

lemma permutedIn_length: "permutedIn xs ys a b \<Longrightarrow> length ys = length xs"
  by (simp add: permutedIn_def)

lemma permutedIn_outside:
  "permutedIn xs ys a b \<Longrightarrow> i < length xs \<Longrightarrow> i < a \<or> b \<le> i \<Longrightarrow> ys ! i = xs ! i"
  unfolding permutedIn_def by blast

lemma permutedIn_swap:
  "a \<le> i \<Longrightarrow> i < b \<Longrightarrow> a \<le> j \<Longrightarrow> j < b \<Longrightarrow> b \<le> length xs \<Longrightarrow>
   permutedIn xs (dataSwap xs i j) a b"
  by (auto simp: permutedIn_def mset_dataSwap nth_dataSwap)

lemma permutedIn_range_mset:
  assumes "permutedIn xs ys a b" and "a \<le> b" and "b \<le> length xs"
  shows "mset (take (b - a) (drop a ys)) = mset (take (b - a) (drop a xs))"
proof -
  have len: "length ys = length xs" using assms(1) by (simp add: permutedIn_def)
  have t: "take a ys = take a xs"
    using assms len by (intro nth_equalityI) (auto simp: permutedIn_def)
  have d: "drop b ys = drop b xs"
    using assms len by (intro nth_equalityI) (auto simp: permutedIn_def)
  have sx: "xs = take a xs @ take (b - a) (drop a xs) @ drop b xs"
    using assms(2) by (metis append_take_drop_id drop_drop le_add_diff_inverse2 add.commute)
  have sy: "ys = take a ys @ take (b - a) (drop a ys) @ drop b ys"
    using assms(2) by (metis append_take_drop_id drop_drop le_add_diff_inverse2 add.commute)
  have y: "mset (take a ys) + mset (take (b - a) (drop a ys)) + mset (drop b ys) = mset ys"
    by (subst (4) sy) simp
  have x: "mset (take a xs) + mset (take (b - a) (drop a xs)) + mset (drop b xs) = mset xs"
    by (subst (4) sx) simp
  have "mset ys = mset xs" using assms(1) by (simp add: permutedIn_def)
  then have "mset (take a xs) + mset (take (b - a) (drop a ys)) + mset (drop b xs) =
             mset (take a xs) + mset (take (b - a) (drop a xs)) + mset (drop b xs)"
    using x y t d by metis
  then show ?thesis by simp
qed

lemma range_set_nth:
  assumes "a \<le> b" and "b \<le> length xs"
  shows "set (take (b - a) (drop a xs)) = {xs ! i | i. a \<le> i \<and> i < b}"
proof (intro set_eqI iffI)
  fix x assume "x \<in> set (take (b - a) (drop a xs))"
  then obtain n where n: "n < length (take (b - a) (drop a xs))"
    and x: "take (b - a) (drop a xs) ! n = x"
    by (auto simp: in_set_conv_nth)
  from n have nb: "n < b - a" by simp
  then have "x = xs ! (a + n)" using x assms by simp
  then show "x \<in> {xs ! i | i. a \<le> i \<and> i < b}"
    using nb by (intro CollectI exI [of _ "a + n"]) auto
next
  fix x assume "x \<in> {xs ! i | i. a \<le> i \<and> i < b}"
  then obtain i where i: "x = xs ! i" "a \<le> i" "i < b" by blast
  then have "i - a < length (take (b - a) (drop a xs))" using assms by simp
  moreover have "take (b - a) (drop a xs) ! (i - a) = x" using i assms by simp
  ultimately show "x \<in> set (take (b - a) (drop a xs))"
    by (metis nth_mem)
qed

lemma permutedIn_range_all:
  assumes "permutedIn xs ys a b" and "a \<le> b" and "b \<le> length xs"
    and "\<forall>i. a \<le> i \<and> i < b \<longrightarrow> P (xs ! i)"
    and "a \<le> i" and "i < b"
  shows "P (ys ! i)"
proof -
  have len: "length ys = length xs" using assms(1) by (simp add: permutedIn_def)
  have "set (take (b - a) (drop a ys)) = set (take (b - a) (drop a xs))"
    using permutedIn_range_mset [OF assms(1-3)] by (metis set_mset_mset)
  then have "{ys ! i | i. a \<le> i \<and> i < b} = {xs ! i | i. a \<le> i \<and> i < b}"
    using range_set_nth [OF assms(2), of ys] range_set_nth [OF assms(2,3)] len assms(3) by simp
  moreover have "ys ! i \<in> {ys ! i | i. a \<le> i \<and> i < b}" using assms(5,6) by blast
  ultimately obtain j where "ys ! i = xs ! j" "a \<le> j" "j < b" by blast
  then show ?thesis using assms(4) by simp
qed

lemma permutedIn_sym: "permutedIn xs ys a b \<Longrightarrow> permutedIn ys xs a b"
  by (auto simp: permutedIn_def)

subsection \<open>insertionSort\<close>

lemma insertionShift_spec:
  assumes "keyOrder lt k" and "a \<le> j" and "j \<le> i" and "i < length xs"
    and "\<forall>p q. a \<le> p \<and> p < q \<and> q \<le> i \<and> q \<noteq> j \<longrightarrow> k (xs ! p) \<le> k (xs ! q)"
  shows "permutedIn xs (insertionShift lt xs a j) a (i + 1) \<and>
         sortedRange k (insertionShift lt xs a j) a (i + 1)"
  using assms
proof (induction lt xs a j rule: insertionShift.induct)
  case (1 lt xs a j)
  have K: "keyOrder lt k" by fact
  have inv: "\<And>p q. a \<le> p \<Longrightarrow> p < q \<Longrightarrow> q \<le> i \<Longrightarrow> q \<noteq> j \<Longrightarrow> k (xs ! p) \<le> k (xs ! q)"
    using "1.prems"(5) by blast
  show ?case
  proof (cases "j > a \<and> dataLess lt xs j (j - 1)")
    case False
    then have res: "insertionShift lt xs a j = xs"
      by (subst insertionShift.simps) auto
    have "sortedRange k xs a (i + 1)"
      unfolding sortedRange_def
    proof (intro allI impI)
      fix p q assume h: "a \<le> p \<and> p < q \<and> q < i + 1"
      show "k (xs ! p) \<le> k (xs ! q)"
      proof (cases "q = j")
        case qj: True
        then have ja: "j > a" using h by simp
        then have le: "k (xs ! (j - 1)) \<le> k (xs ! j)"
          using False K by (simp add: dataLess_key)
        show ?thesis
        proof (cases "p = j - 1")
          case True
          then show ?thesis using le qj by simp
        next
          case False
          then have "k (xs ! p) \<le> k (xs ! (j - 1))"
            using inv [of p "j - 1"] h qj "1.prems"(3) by auto
          then show ?thesis using le qj by simp
        qed
      next
        case False
        then show ?thesis using inv [of p q] h by auto
      qed
    qed
    then show ?thesis using res by simp
  next
    case True
    define xs' where "xs' = dataSwap xs j (j - 1)"
    have jl: "j < length xs" "j - 1 < length xs" using "1.prems" by auto
    have lt: "k (xs ! j) < k (xs ! (j - 1))" using True K by (simp add: dataLess_key)
    have ja: "a < j" using True by simp
    have nth': "\<And>n. xs' ! n = (if n = j - 1 then xs ! j else if n = j then xs ! (j - 1) else xs ! n)"
      unfolding xs'_def using jl by (simp add: nth_dataSwap)
    have inv': "\<forall>p q. a \<le> p \<and> p < q \<and> q \<le> i \<and> q \<noteq> j - 1 \<longrightarrow> k (xs' ! p) \<le> k (xs' ! q)"
    proof (intro allI impI)
      fix p q assume h: "a \<le> p \<and> p < q \<and> q \<le> i \<and> q \<noteq> j - 1"
      show "k (xs' ! p) \<le> k (xs' ! q)"
      proof (cases "q = j")
        case qj: True
        show ?thesis
        proof (cases "p = j - 1")
          case True
          then show ?thesis using lt qj True by (simp add: nth')
        next
          case False
          then have "k (xs ! p) \<le> k (xs ! (j - 1))"
            using ja inv [of p "j - 1"] h qj "1.prems"(3) by auto
          then show ?thesis using qj False h by (simp add: nth')
        qed
      next
        case qnj: False
        show ?thesis
        proof (cases "q < j")
          case True
          then show ?thesis using ja inv [of p q] h by (auto simp: nth')
        next
          case False
          then have qgt: "q > j" using qnj by simp
          show ?thesis
          proof (cases "p = j")
            case True
            then show ?thesis using ja inv [of "j - 1" q] h qgt True by (auto simp: nth')
          next
            case pnj: False
            show ?thesis
            proof (cases "p = j - 1")
              case True
              have "k (xs ! (j - 1)) \<le> k (xs ! q)"
                using ja inv [of "j - 1" q] h qgt True by auto
              then show ?thesis using lt True qgt by (simp add: nth')
            next
              case False
              then show ?thesis using ja inv [of p q] h qgt pnj by (auto simp: nth')
            qed
          qed
        qed
      qed
    qed
    have "permutedIn xs' (insertionShift lt xs' a (j - 1)) a (i + 1) \<and>
          sortedRange k (insertionShift lt xs' a (j - 1)) a (i + 1)"
      using "1.IH" [OF True K] True "1.prems" inv' unfolding xs'_def by auto
    moreover have "permutedIn xs xs' a (i + 1)"
      unfolding xs'_def using True "1.prems" by (intro permutedIn_swap) auto
    moreover have "insertionShift lt xs a j = insertionShift lt xs' a (j - 1)"
      using True unfolding xs'_def by (subst insertionShift.simps) simp
    ultimately show ?thesis using permutedIn_trans by metis
  qed
qed

lemma sortedRange_mono: "sortedRange k xs a b \<Longrightarrow> a \<le> a' \<Longrightarrow> b' \<le> b \<Longrightarrow> sortedRange k xs a' b'"
  by (auto simp: sortedRange_def)

lemma insertionSortFrom_spec:
  assumes "keyOrder lt k" and "a < i" and "i \<le> b \<or> b \<le> a" and "b \<le> length xs"
    and "sortedRange k xs a i"
  shows "permutedIn xs (insertionSortFrom lt xs a b i) a b \<and>
         sortedRange k (insertionSortFrom lt xs a b i) a b"
  using assms
proof (induction lt xs a b i rule: insertionSortFrom.induct)
  case (1 lt xs a b i)
  show ?case
  proof (cases "i < b")
    case False
    then have "insertionSortFrom lt xs a b i = xs" by (subst insertionSortFrom.simps) simp
    moreover have "sortedRange k xs a b"
      using "1.prems" False by (auto simp: sortedRange_def)
    ultimately show ?thesis by simp
  next
    case True
    define xs' where "xs' = insertionShift lt xs a i"
    have "\<forall>p q. a \<le> p \<and> p < q \<and> q \<le> i \<and> q \<noteq> i \<longrightarrow> k (xs ! p) \<le> k (xs ! q)"
      using "1.prems"(5) by (auto simp: sortedRange_def)
    then have s: "permutedIn xs xs' a (i + 1) \<and> sortedRange k xs' a (i + 1)"
      unfolding xs'_def using "1.prems" True
      by (intro insertionShift_spec) auto
    then have len: "length xs' = length xs" by (simp add: permutedIn_def)
    have "permutedIn xs' (insertionSortFrom lt xs' a b (i + 1)) a b \<and>
          sortedRange k (insertionSortFrom lt xs' a b (i + 1)) a b"
      using "1.IH" [OF True] "1.prems" True s len unfolding xs'_def by auto
    moreover have "permutedIn xs xs' a b"
      using s True by (auto intro: permutedIn_mono)
    moreover have "insertionSortFrom lt xs a b i = insertionSortFrom lt xs' a b (i + 1)"
      using True unfolding xs'_def by (subst insertionSortFrom.simps) simp
    ultimately show ?thesis using permutedIn_trans by metis
  qed
qed

lemma insertionSort_func_spec:
  assumes "keyOrder lt k" and "b \<le> length xs"
  shows "permutedIn xs (insertionSort_func lt xs a b) a b \<and>
         sortedRange k (insertionSort_func lt xs a b) a b"
  unfolding insertionSort_func_def
  using assms by (intro insertionSortFrom_spec) (auto simp: sortedRange_def)

subsection \<open>partition\<close>

lemma partitionScanI_spec:
  assumes "keyOrder lt k" and "int i \<le> j + 1"
    and "\<forall>n. i0 \<le> n \<and> n < i \<longrightarrow> k (xs ! n) < k (xs ! a)"
  shows "i \<le> partitionScanI lt xs a i j \<and> int (partitionScanI lt xs a i j) \<le> j + 1 \<and>
         (\<forall>n. i0 \<le> n \<and> n < partitionScanI lt xs a i j \<longrightarrow> k (xs ! n) < k (xs ! a)) \<and>
         (int (partitionScanI lt xs a i j) \<le> j \<longrightarrow>
            \<not> k (xs ! partitionScanI lt xs a i j) < k (xs ! a))"
  using assms
proof (induction lt xs a i j rule: partitionScanI.induct)
  case (1 lt xs a i j)
  show ?case
  proof (cases "int i \<le> j \<and> dataLess lt xs i a")
    case True
    then have e: "partitionScanI lt xs a i j = partitionScanI lt xs a (i + 1) j"
      by (subst partitionScanI.simps) simp
    have "k (xs ! i) < k (xs ! a)" using True "1.prems"(1) by (simp add: dataLess_key)
    then have "\<forall>n. i0 \<le> n \<and> n < i + 1 \<longrightarrow> k (xs ! n) < k (xs ! a)"
      using "1.prems"(3) by (auto simp: less_Suc_eq)
    then show ?thesis
      using "1.IH" [OF True "1.prems"(1)] True unfolding e by auto
  next
    case False
    then have e: "partitionScanI lt xs a i j = i"
      by (subst partitionScanI.simps) auto
    show ?thesis unfolding e using False "1.prems" by (auto simp: dataLess_key)
  qed
qed

lemma partitionScanJ_spec:
  assumes "keyOrder lt k" and "int i - 1 \<le> j" and "0 < i"
    and "\<forall>n. j < int n \<and> n < b \<longrightarrow> k (xs ! a) \<le> k (xs ! n)"
  shows "partitionScanJ lt xs a i j \<le> j \<and> int i - 1 \<le> partitionScanJ lt xs a i j \<and>
         (\<forall>n. partitionScanJ lt xs a i j < int n \<and> n < b \<longrightarrow> k (xs ! a) \<le> k (xs ! n)) \<and>
         (int i \<le> partitionScanJ lt xs a i j \<longrightarrow>
            k (xs ! nat (partitionScanJ lt xs a i j)) < k (xs ! a))"
  using assms
proof (induction lt xs a i j rule: partitionScanJ.induct)
  case (1 lt xs a i j)
  show ?case
  proof (cases "int i \<le> j \<and> \<not> dataLess lt xs (nat j) a")
    case True
    then have e: "partitionScanJ lt xs a i j = partitionScanJ lt xs a i (j - 1)"
      by (subst partitionScanJ.simps) simp
    have "k (xs ! a) \<le> k (xs ! nat j)" using True "1.prems"(1) by (simp add: dataLess_key)
    moreover have "\<And>n. j - 1 < int n \<Longrightarrow> n \<noteq> nat j \<Longrightarrow> j < int n" using True by auto
    ultimately have "\<forall>n. j - 1 < int n \<and> n < b \<longrightarrow> k (xs ! a) \<le> k (xs ! n)"
      using "1.prems"(4) by metis
    then show ?thesis
      using "1.IH" [OF True "1.prems"(1)] True "1.prems"(3) unfolding e by auto
  next
    case False
    then have e: "partitionScanJ lt xs a i j = j"
      by (subst partitionScanJ.simps) auto
    show ?thesis unfolding e using False "1.prems" by (auto simp: dataLess_key)
  qed
qed

lemma partitionLoop_spec:
  assumes "keyOrder lt k" and "a < i" and "int i \<le> j + 1" and "j < int b" and "b \<le> length xs"
    and "\<forall>n. a < n \<and> n < i \<longrightarrow> k (xs ! n) < k (xs ! a)"
    and "\<forall>n. j < int n \<and> n < b \<longrightarrow> k (xs ! a) \<le> k (xs ! n)"
    and "partitionLoop lt xs a i j = (ys, j')"
  shows "permutedIn xs ys (a + 1) b \<and> int a \<le> j' \<and> j' < int b \<and>
         (\<forall>n. a < n \<and> int n \<le> j' \<longrightarrow> k (ys ! n) < k (xs ! a)) \<and>
         (\<forall>n. j' < int n \<and> n < b \<longrightarrow> k (xs ! a) \<le> k (ys ! n))"
  using assms
proof (induction lt xs a i j rule: partitionLoop.induct)
  case (1 lt xs a i j)
  note K = "1.prems"(1)
  define i1 where "i1 = partitionScanI lt xs a i j"
  define j1 where "j1 = partitionScanJ lt xs a i1 j"
  have si: "i \<le> i1 \<and> int i1 \<le> j + 1 \<and>
         (\<forall>n. a + 1 \<le> n \<and> n < i1 \<longrightarrow> k (xs ! n) < k (xs ! a)) \<and>
         (int i1 \<le> j \<longrightarrow> \<not> k (xs ! i1) < k (xs ! a))"
    unfolding i1_def using "1.prems" by (intro partitionScanI_spec) auto
  have sj: "j1 \<le> j \<and> int i1 - 1 \<le> j1 \<and>
         (\<forall>n. j1 < int n \<and> n < b \<longrightarrow> k (xs ! a) \<le> k (xs ! n)) \<and>
         (int i1 \<le> j1 \<longrightarrow> k (xs ! nat j1) < k (xs ! a))"
    unfolding j1_def using "1.prems" si by (intro partitionScanJ_spec) auto
  show ?case
  proof (cases "int i1 > j1")
    case True
    then have "partitionLoop lt xs a i j = (xs, j1)"
      by (subst partitionLoop.simps) (simp add: Let_def i1_def j1_def)
    then have e: "ys = xs" "j' = j1" using "1.prems"(8) by auto
    have "j1 = int i1 - 1" using True sj by auto
    then show ?thesis
      unfolding e using si sj "1.prems"(2,4) by auto
  next
    case False
    define xs' where "xs' = dataSwap xs i1 (nat j1)"
    have rec: "partitionLoop lt xs a i j = partitionLoop lt xs' a (i1 + 1) (j1 - 1)"
      using False by (subst partitionLoop.simps) (simp add: Let_def i1_def j1_def xs'_def)
    have ki: "\<not> k (xs ! i1) < k (xs ! a)" using si sj False by auto
    have kj: "k (xs ! nat j1) < k (xs ! a)" using sj False by auto
    have ne: "int i1 < j1" using ki kj False by (cases "int i1 = j1") auto
    have bounds: "a < i1" "i1 < length xs" "nat j1 < length xs" "a < nat j1" "nat j1 < b" "i1 < b"
      using si sj ne "1.prems"(2,4,5) by auto
    have nth': "\<And>n. xs' ! n = (if n = nat j1 then xs ! i1 else if n = i1 then xs ! nat j1 else xs ! n)"
      unfolding xs'_def using bounds by (simp add: nth_dataSwap)
    have xi: "xs' ! i1 = xs ! nat j1" using ne by (auto simp: nth')
    have xj: "xs' ! nat j1 = xs ! i1" by (simp add: nth')
    have xo: "\<And>n. n \<noteq> i1 \<Longrightarrow> n \<noteq> nat j1 \<Longrightarrow> xs' ! n = xs ! n" by (simp add: nth')
    have a': "xs' ! a = xs ! a" using bounds by (intro xo) auto
    have p1: "\<forall>n. a < n \<and> n < i1 + 1 \<longrightarrow> k (xs' ! n) < k (xs' ! a)"
    proof (intro allI impI)
      fix n assume h: "a < n \<and> n < i1 + 1"
      show "k (xs' ! n) < k (xs' ! a)"
      proof (cases "n = i1")
        case True
        then show ?thesis using kj xi a' by simp
      next
        case False
        then have "n < i1" using h by simp
        then have "k (xs ! n) < k (xs ! a)" using si h by auto
        moreover have "xs' ! n = xs ! n" using \<open>n < i1\<close> ne by (intro xo) auto
        ultimately show ?thesis using a' by simp
      qed
    qed
    have p2: "\<forall>n. j1 - 1 < int n \<and> n < b \<longrightarrow> k (xs' ! a) \<le> k (xs' ! n)"
    proof (intro allI impI)
      fix n assume h: "j1 - 1 < int n \<and> n < b"
      show "k (xs' ! a) \<le> k (xs' ! n)"
      proof (cases "n = nat j1")
        case True
        then show ?thesis using ki xj a' by simp
      next
        case False
        then have "j1 < int n" using h by auto
        then have "k (xs ! a) \<le> k (xs ! n)" using sj h by auto
        moreover have "xs' ! n = xs ! n" using \<open>j1 < int n\<close> ne by (intro xo) auto
        ultimately show ?thesis using a' by simp
      qed
    qed
    have IH: "permutedIn xs' ys (a + 1) b \<and> int a \<le> j' \<and> j' < int b \<and>
         (\<forall>n. a < n \<and> int n \<le> j' \<longrightarrow> k (ys ! n) < k (xs' ! a)) \<and>
         (\<forall>n. j' < int n \<and> n < b \<longrightarrow> k (xs' ! a) \<le> k (ys ! n))"
      unfolding xs'_def
    proof (rule "1.IH" [OF i1_def j1_def False K])
      show "a < i1 + 1" using bounds by simp
      show "int (i1 + 1) \<le> j1 - 1 + 1" using ne by simp
      show "j1 - 1 < int b" using sj "1.prems"(4) by simp
      show "b \<le> length (dataSwap xs i1 (nat j1))" using "1.prems"(5) by simp
      show "\<forall>n. a < n \<and> n < i1 + 1 \<longrightarrow>
              k (dataSwap xs i1 (nat j1) ! n) < k (dataSwap xs i1 (nat j1) ! a)"
        using p1 unfolding xs'_def .
      show "\<forall>n. j1 - 1 < int n \<and> n < b \<longrightarrow>
              k (dataSwap xs i1 (nat j1) ! a) \<le> k (dataSwap xs i1 (nat j1) ! n)"
        using p2 unfolding xs'_def .
      show "partitionLoop lt (dataSwap xs i1 (nat j1)) a (i1 + 1) (j1 - 1) = (ys, j')"
        using rec "1.prems"(8) unfolding xs'_def by simp
    qed
    have "permutedIn xs xs' (a + 1) b"
      unfolding xs'_def using bounds "1.prems"(5) by (intro permutedIn_swap) auto
    then have "permutedIn xs ys (a + 1) b" using IH permutedIn_trans by blast
    then show ?thesis using IH a' by simp
  qed
qed

lemma partition_func_spec:
  assumes "keyOrder lt k" and "a \<le> pivot" and "pivot < b" and "b \<le> length xs"
    and "partition_func lt xs a b pivot = (ys, mid, already)"
  shows "permutedIn xs ys a b \<and> a \<le> mid \<and> mid < b \<and>
         (\<forall>n. a \<le> n \<and> n < mid \<longrightarrow> k (ys ! n) < k (ys ! mid)) \<and>
         (\<forall>n. mid < n \<and> n < b \<longrightarrow> k (ys ! mid) \<le> k (ys ! n))"
proof -
  note K = assms(1)
  define xs0 where "xs0 = dataSwap xs a pivot"
  define i1 where "i1 = partitionScanI lt xs0 a (a + 1) (int b - 1)"
  define j1 where "j1 = partitionScanJ lt xs0 a i1 (int b - 1)"
  have ab: "a < b" using assms by simp
  have len0: "length xs0 = length xs" by (simp add: xs0_def)
  have p0: "permutedIn xs xs0 a b"
    unfolding xs0_def using assms by (intro permutedIn_swap) auto
  have si: "a + 1 \<le> i1 \<and> int i1 \<le> int b - 1 + 1 \<and>
         (\<forall>n. a + 1 \<le> n \<and> n < i1 \<longrightarrow> k (xs0 ! n) < k (xs0 ! a)) \<and>
         (int i1 \<le> int b - 1 \<longrightarrow> \<not> k (xs0 ! i1) < k (xs0 ! a))"
    unfolding i1_def using K ab by (intro partitionScanI_spec) auto
  have sj: "j1 \<le> int b - 1 \<and> int i1 - 1 \<le> j1 \<and>
         (\<forall>n. j1 < int n \<and> n < b \<longrightarrow> k (xs0 ! a) \<le> k (xs0 ! n)) \<and>
         (int i1 \<le> j1 \<longrightarrow> k (xs0 ! nat j1) < k (xs0 ! a))"
    unfolding j1_def using K si by (intro partitionScanJ_spec) auto
  text \<open>Placing the pivot: common final step.\<close>
  have final: "permutedIn xs (dataSwap zs (nat jf) a) a b \<and> a \<le> nat jf \<and> nat jf < b \<and>
         (\<forall>n. a \<le> n \<and> n < nat jf \<longrightarrow> k (dataSwap zs (nat jf) a ! n) < k (dataSwap zs (nat jf) a ! nat jf)) \<and>
         (\<forall>n. nat jf < n \<and> n < b \<longrightarrow> k (dataSwap zs (nat jf) a ! nat jf) \<le> k (dataSwap zs (nat jf) a ! n))"
    if z: "permutedIn xs0 zs (a + 1) b" "int a \<le> jf" "jf < int b"
      "\<forall>n. a < n \<and> int n \<le> jf \<longrightarrow> k (zs ! n) < k (xs0 ! a)"
      "\<forall>n. jf < int n \<and> n < b \<longrightarrow> k (xs0 ! a) \<le> k (zs ! n)"
    for zs jf
  proof -
    have lz: "length zs = length xs" using z(1) len0 by (simp add: permutedIn_def)
    have za: "zs ! a = xs0 ! a"
      using z(1) ab assms(4) len0 by (intro permutedIn_outside [of xs0 zs "a + 1" b]) auto
    have jb: "nat jf < length zs" "a < length zs" using z lz assms(4) ab by auto
    have nth': "\<And>n. dataSwap zs (nat jf) a ! n =
        (if n = a then zs ! nat jf else if n = nat jf then zs ! a else zs ! n)"
      using jb by (simp add: nth_dataSwap)
    have "permutedIn zs (dataSwap zs (nat jf) a) a b"
      using z jb lz assms(4) by (intro permutedIn_swap) auto
    moreover have "permutedIn xs0 zs a b" using z(1) by (rule permutedIn_mono) auto
    ultimately have P: "permutedIn xs (dataSwap zs (nat jf) a) a b"
      using p0 permutedIn_trans by blast
    have L: "\<forall>n. a \<le> n \<and> n < nat jf \<longrightarrow>
        k (dataSwap zs (nat jf) a ! n) < k (dataSwap zs (nat jf) a ! nat jf)"
    proof (intro allI impI)
      fix n assume h: "a \<le> n \<and> n < nat jf"
      have "k (zs ! nat jf) < k (xs0 ! a)" using z(4) h by auto
      moreover have "n \<noteq> a \<Longrightarrow> k (zs ! n) < k (xs0 ! a)" using z(4) h by auto
      ultimately show "k (dataSwap zs (nat jf) a ! n) < k (dataSwap zs (nat jf) a ! nat jf)"
        using h za by (auto simp: nth')
    qed
    have U: "\<forall>n. nat jf < n \<and> n < b \<longrightarrow>
        k (dataSwap zs (nat jf) a ! nat jf) \<le> k (dataSwap zs (nat jf) a ! n)"
    proof (intro allI impI)
      fix n assume h: "nat jf < n \<and> n < b"
      then have "k (xs0 ! a) \<le> k (zs ! n)" using z(5) by auto
      then show "k (dataSwap zs (nat jf) a ! nat jf) \<le> k (dataSwap zs (nat jf) a ! n)"
        using h za z(2) by (auto simp: nth')
    qed
    show ?thesis using P L U z by auto
  qed
  show ?thesis
  proof (cases "int i1 > j1")
    case True
    then have e: "ys = dataSwap xs0 (nat j1) a" "mid = nat j1"
      using assms(5) unfolding partition_func_def Let_def xs0_def i1_def j1_def by auto
    have "j1 = int i1 - 1" using True sj by auto
    then have "\<forall>n. a < n \<and> int n \<le> j1 \<longrightarrow> k (xs0 ! n) < k (xs0 ! a)" using si by auto
    then show ?thesis
      unfolding e using sj si ab by (intro final) auto
  next
    case False
    define xs' where "xs' = dataSwap xs0 i1 (nat j1)"
    obtain zs jf where r: "partitionLoop lt xs' a (i1 + 1) (j1 - 1) = (zs, jf)"
      by (cases "partitionLoop lt xs' a (i1 + 1) (j1 - 1)") auto
    have e: "ys = dataSwap zs (nat jf) a" "mid = nat jf"
      using assms(5) False r
      unfolding partition_func_def Let_def xs0_def i1_def j1_def xs'_def by auto
    have ki: "\<not> k (xs0 ! i1) < k (xs0 ! a)" using si sj False by auto
    have kj: "k (xs0 ! nat j1) < k (xs0 ! a)" using sj False by auto
    have ne: "int i1 < j1" using ki kj False by (cases "int i1 = j1") auto
    have bounds: "a < i1" "i1 < length xs0" "nat j1 < length xs0" "a < nat j1" "nat j1 < b" "i1 < b"
      using si sj ne assms(4) len0 by auto
    have nth': "\<And>n. xs' ! n = (if n = nat j1 then xs0 ! i1 else if n = i1 then xs0 ! nat j1 else xs0 ! n)"
      unfolding xs'_def using bounds by (simp add: nth_dataSwap)
    have xi: "xs' ! i1 = xs0 ! nat j1" using ne by (auto simp: nth')
    have xj: "xs' ! nat j1 = xs0 ! i1" by (simp add: nth')
    have xo: "\<And>n. n \<noteq> i1 \<Longrightarrow> n \<noteq> nat j1 \<Longrightarrow> xs' ! n = xs0 ! n" by (simp add: nth')
    have a': "xs' ! a = xs0 ! a" using bounds by (intro xo) auto
    have p1: "\<forall>n. a < n \<and> n < i1 + 1 \<longrightarrow> k (xs' ! n) < k (xs' ! a)"
    proof (intro allI impI)
      fix n assume h: "a < n \<and> n < i1 + 1"
      show "k (xs' ! n) < k (xs' ! a)"
      proof (cases "n = i1")
        case True
        then show ?thesis using kj xi a' by simp
      next
        case False
        then have "n < i1" using h by simp
        then have "k (xs0 ! n) < k (xs0 ! a)" using si h by auto
        moreover have "xs' ! n = xs0 ! n" using \<open>n < i1\<close> ne by (intro xo) auto
        ultimately show ?thesis using a' by simp
      qed
    qed
    have p2: "\<forall>n. j1 - 1 < int n \<and> n < b \<longrightarrow> k (xs' ! a) \<le> k (xs' ! n)"
    proof (intro allI impI)
      fix n assume h: "j1 - 1 < int n \<and> n < b"
      show "k (xs' ! a) \<le> k (xs' ! n)"
      proof (cases "n = nat j1")
        case True
        then show ?thesis using ki xj a' by simp
      next
        case False
        then have "j1 < int n" using h by auto
        then have "k (xs0 ! a) \<le> k (xs0 ! n)" using sj h by auto
        moreover have "xs' ! n = xs0 ! n" using \<open>j1 < int n\<close> ne by (intro xo) auto
        ultimately show ?thesis using a' by simp
      qed
    qed
    have L: "permutedIn xs' zs (a + 1) b \<and> int a \<le> jf \<and> jf < int b \<and>
         (\<forall>n. a < n \<and> int n \<le> jf \<longrightarrow> k (zs ! n) < k (xs' ! a)) \<and>
         (\<forall>n. jf < int n \<and> n < b \<longrightarrow> k (xs' ! a) \<le> k (zs ! n))"
      using K r p1 p2 bounds ne sj assms(4) len0
      by (intro partitionLoop_spec [where i = "i1 + 1" and j = "j1 - 1"]) (auto simp: xs'_def)
    have "permutedIn xs0 xs' (a + 1) b"
      unfolding xs'_def using bounds assms(4) len0 by (intro permutedIn_swap) auto
    then have "permutedIn xs0 zs (a + 1) b" using L permutedIn_trans by blast
    then show ?thesis
      unfolding e using L a' by (intro final) auto
  qed
qed

subsection \<open>partitionEqual\<close>

lemma equalScanI_spec:
  assumes "keyOrder lt k" and "int i \<le> j + 1"
    and "\<forall>n. i0 \<le> n \<and> n < i \<longrightarrow> k (xs ! n) \<le> k (xs ! a)"
  shows "i \<le> equalScanI lt xs a i j \<and> int (equalScanI lt xs a i j) \<le> j + 1 \<and>
         (\<forall>n. i0 \<le> n \<and> n < equalScanI lt xs a i j \<longrightarrow> k (xs ! n) \<le> k (xs ! a)) \<and>
         (int (equalScanI lt xs a i j) \<le> j \<longrightarrow>
            k (xs ! a) < k (xs ! equalScanI lt xs a i j))"
  using assms
proof (induction lt xs a i j rule: equalScanI.induct)
  case (1 lt xs a i j)
  show ?case
  proof (cases "int i \<le> j \<and> \<not> dataLess lt xs a i")
    case True
    then have e: "equalScanI lt xs a i j = equalScanI lt xs a (i + 1) j"
      by (subst equalScanI.simps) simp
    have "k (xs ! i) \<le> k (xs ! a)" using True "1.prems"(1) by (simp add: dataLess_key)
    then have "\<forall>n. i0 \<le> n \<and> n < i + 1 \<longrightarrow> k (xs ! n) \<le> k (xs ! a)"
      using "1.prems"(3) by (auto simp: less_Suc_eq)
    then show ?thesis
      using "1.IH" [OF True "1.prems"(1)] True unfolding e by auto
  next
    case False
    then have e: "equalScanI lt xs a i j = i"
      by (subst equalScanI.simps) auto
    show ?thesis unfolding e using False "1.prems" by (auto simp: dataLess_key)
  qed
qed

lemma equalScanJ_spec:
  assumes "keyOrder lt k" and "int i - 1 \<le> j" and "0 < i"
    and "\<forall>n. j < int n \<and> n < b \<longrightarrow> k (xs ! a) < k (xs ! n)"
  shows "equalScanJ lt xs a i j \<le> j \<and> int i - 1 \<le> equalScanJ lt xs a i j \<and>
         (\<forall>n. equalScanJ lt xs a i j < int n \<and> n < b \<longrightarrow> k (xs ! a) < k (xs ! n)) \<and>
         (int i \<le> equalScanJ lt xs a i j \<longrightarrow>
            k (xs ! nat (equalScanJ lt xs a i j)) \<le> k (xs ! a))"
  using assms
proof (induction lt xs a i j rule: equalScanJ.induct)
  case (1 lt xs a i j)
  show ?case
  proof (cases "int i \<le> j \<and> dataLess lt xs a (nat j)")
    case True
    then have e: "equalScanJ lt xs a i j = equalScanJ lt xs a i (j - 1)"
      by (subst equalScanJ.simps) simp
    have "k (xs ! a) < k (xs ! nat j)" using True "1.prems"(1) by (simp add: dataLess_key)
    moreover have "\<And>n. j - 1 < int n \<Longrightarrow> n \<noteq> nat j \<Longrightarrow> j < int n" using True by auto
    ultimately have "\<forall>n. j - 1 < int n \<and> n < b \<longrightarrow> k (xs ! a) < k (xs ! n)"
      using "1.prems"(4) by metis
    then show ?thesis
      using "1.IH" [OF True "1.prems"(1)] True "1.prems"(3) unfolding e by auto
  next
    case False
    then have e: "equalScanJ lt xs a i j = j"
      by (subst equalScanJ.simps) auto
    show ?thesis unfolding e using False "1.prems" by (auto simp: dataLess_key)
  qed
qed

lemma equalLoop_spec:
  assumes "keyOrder lt k" and "a < i" and "int i \<le> j + 1" and "j < int b" and "b \<le> length xs"
    and "\<forall>n. a < n \<and> n < i \<longrightarrow> k (xs ! n) \<le> k (xs ! a)"
    and "\<forall>n. j < int n \<and> n < b \<longrightarrow> k (xs ! a) < k (xs ! n)"
    and "equalLoop lt xs a i j = (ys, mid)"
  shows "permutedIn xs ys (a + 1) b \<and> a < mid \<and> mid \<le> b \<and>
         (\<forall>n. a < n \<and> n < mid \<longrightarrow> k (ys ! n) \<le> k (xs ! a)) \<and>
         (\<forall>n. mid \<le> n \<and> n < b \<longrightarrow> k (xs ! a) < k (ys ! n))"
  using assms
proof (induction lt xs a i j rule: equalLoop.induct)
  case (1 lt xs a i j)
  note K = "1.prems"(1)
  define i1 where "i1 = equalScanI lt xs a i j"
  define j1 where "j1 = equalScanJ lt xs a i1 j"
  have si: "i \<le> i1 \<and> int i1 \<le> j + 1 \<and>
         (\<forall>n. a + 1 \<le> n \<and> n < i1 \<longrightarrow> k (xs ! n) \<le> k (xs ! a)) \<and>
         (int i1 \<le> j \<longrightarrow> k (xs ! a) < k (xs ! i1))"
    unfolding i1_def using "1.prems" by (intro equalScanI_spec) auto
  have sj: "j1 \<le> j \<and> int i1 - 1 \<le> j1 \<and>
         (\<forall>n. j1 < int n \<and> n < b \<longrightarrow> k (xs ! a) < k (xs ! n)) \<and>
         (int i1 \<le> j1 \<longrightarrow> k (xs ! nat j1) \<le> k (xs ! a))"
    unfolding j1_def using "1.prems" si by (intro equalScanJ_spec) auto
  show ?case
  proof (cases "int i1 > j1")
    case True
    then have "equalLoop lt xs a i j = (xs, i1)"
      by (subst equalLoop.simps) (simp add: Let_def i1_def j1_def)
    then have e: "ys = xs" "mid = i1" using "1.prems"(8) by auto
    have "j1 = int i1 - 1" using True sj by auto
    then show ?thesis
      unfolding e using si sj "1.prems"(2,4) by auto
  next
    case False
    define xs' where "xs' = dataSwap xs i1 (nat j1)"
    have rec: "equalLoop lt xs a i j = equalLoop lt xs' a (i1 + 1) (j1 - 1)"
      using False by (subst equalLoop.simps) (simp add: Let_def i1_def j1_def xs'_def)
    have ki: "k (xs ! a) < k (xs ! i1)" using si sj False by auto
    have kj: "k (xs ! nat j1) \<le> k (xs ! a)" using sj False by auto
    have ne: "int i1 < j1" using ki kj False by (cases "int i1 = j1") auto
    have bounds: "a < i1" "i1 < length xs" "nat j1 < length xs" "a < nat j1" "nat j1 < b" "i1 < b"
      using si sj ne "1.prems"(2,4,5) by auto
    have nth': "\<And>n. xs' ! n = (if n = nat j1 then xs ! i1 else if n = i1 then xs ! nat j1 else xs ! n)"
      unfolding xs'_def using bounds by (simp add: nth_dataSwap)
    have xi: "xs' ! i1 = xs ! nat j1" using ne by (auto simp: nth')
    have xj: "xs' ! nat j1 = xs ! i1" by (simp add: nth')
    have xo: "\<And>n. n \<noteq> i1 \<Longrightarrow> n \<noteq> nat j1 \<Longrightarrow> xs' ! n = xs ! n" by (simp add: nth')
    have a': "xs' ! a = xs ! a" using bounds by (intro xo) auto
    have p1: "\<forall>n. a < n \<and> n < i1 + 1 \<longrightarrow> k (xs' ! n) \<le> k (xs' ! a)"
    proof (intro allI impI)
      fix n assume h: "a < n \<and> n < i1 + 1"
      show "k (xs' ! n) \<le> k (xs' ! a)"
      proof (cases "n = i1")
        case True
        then show ?thesis using kj xi a' by simp
      next
        case False
        then have "n < i1" using h by simp
        then have "k (xs ! n) \<le> k (xs ! a)" using si h by auto
        moreover have "xs' ! n = xs ! n" using \<open>n < i1\<close> ne by (intro xo) auto
        ultimately show ?thesis using a' by simp
      qed
    qed
    have p2: "\<forall>n. j1 - 1 < int n \<and> n < b \<longrightarrow> k (xs' ! a) < k (xs' ! n)"
    proof (intro allI impI)
      fix n assume h: "j1 - 1 < int n \<and> n < b"
      show "k (xs' ! a) < k (xs' ! n)"
      proof (cases "n = nat j1")
        case True
        then show ?thesis using ki xj a' by simp
      next
        case False
        then have "j1 < int n" using h by auto
        then have "k (xs ! a) < k (xs ! n)" using sj h by auto
        moreover have "xs' ! n = xs ! n" using \<open>j1 < int n\<close> ne by (intro xo) auto
        ultimately show ?thesis using a' by simp
      qed
    qed
    have IH: "permutedIn xs' ys (a + 1) b \<and> a < mid \<and> mid \<le> b \<and>
         (\<forall>n. a < n \<and> n < mid \<longrightarrow> k (ys ! n) \<le> k (xs' ! a)) \<and>
         (\<forall>n. mid \<le> n \<and> n < b \<longrightarrow> k (xs' ! a) < k (ys ! n))"
      unfolding xs'_def
    proof (rule "1.IH" [OF i1_def j1_def False K])
      show "a < i1 + 1" using bounds by simp
      show "int (i1 + 1) \<le> j1 - 1 + 1" using ne by simp
      show "j1 - 1 < int b" using sj "1.prems"(4) by simp
      show "b \<le> length (dataSwap xs i1 (nat j1))" using "1.prems"(5) by simp
      show "\<forall>n. a < n \<and> n < i1 + 1 \<longrightarrow>
              k (dataSwap xs i1 (nat j1) ! n) \<le> k (dataSwap xs i1 (nat j1) ! a)"
        using p1 unfolding xs'_def .
      show "\<forall>n. j1 - 1 < int n \<and> n < b \<longrightarrow>
              k (dataSwap xs i1 (nat j1) ! a) < k (dataSwap xs i1 (nat j1) ! n)"
        using p2 unfolding xs'_def .
      show "equalLoop lt (dataSwap xs i1 (nat j1)) a (i1 + 1) (j1 - 1) = (ys, mid)"
        using rec "1.prems"(8) unfolding xs'_def by simp
    qed
    have "permutedIn xs xs' (a + 1) b"
      unfolding xs'_def using bounds "1.prems"(5) by (intro permutedIn_swap) auto
    then have "permutedIn xs ys (a + 1) b" using IH permutedIn_trans by blast
    then show ?thesis using IH a' by simp
  qed
qed

lemma partitionEqual_func_spec:
  assumes "keyOrder lt k" and "a \<le> pivot" and "pivot < b" and "b \<le> length xs"
    and "\<forall>n. a \<le> n \<and> n < b \<longrightarrow> k (xs ! pivot) \<le> k (xs ! n)"
    and "partitionEqual_func lt xs a b pivot = (ys, mid)"
  shows "permutedIn xs ys a b \<and> a < mid \<and> mid \<le> b \<and>
         (\<forall>n. a \<le> n \<and> n < mid \<longrightarrow> k (ys ! n) = k (xs ! pivot)) \<and>
         (\<forall>n. mid \<le> n \<and> n < b \<longrightarrow> k (xs ! pivot) < k (ys ! n))"
proof -
  define xs0 where "xs0 = dataSwap xs a pivot"
  have ab: "a < b" using assms by simp
  have len0: "length xs0 = length xs" by (simp add: xs0_def)
  have p0: "permutedIn xs xs0 a b"
    unfolding xs0_def using assms by (intro permutedIn_swap) auto
  have x0a: "xs0 ! a = xs ! pivot"
    unfolding xs0_def using assms by (simp add: nth_dataSwap)
  have r: "equalLoop lt xs0 a (a + 1) (int b - 1) = (ys, mid)"
    using assms(6) by (simp add: partitionEqual_func_def Let_def xs0_def)
  have L: "permutedIn xs0 ys (a + 1) b \<and> a < mid \<and> mid \<le> b \<and>
         (\<forall>n. a < n \<and> n < mid \<longrightarrow> k (ys ! n) \<le> k (xs0 ! a)) \<and>
         (\<forall>n. mid \<le> n \<and> n < b \<longrightarrow> k (xs0 ! a) < k (ys ! n))"
    using assms(1) ab assms(4) len0 r
    by (intro equalLoop_spec [where i = "a + 1" and j = "int b - 1"]) auto
  have "permutedIn xs0 ys a b" using L by (auto intro: permutedIn_mono)
  then have P: "permutedIn xs ys a b" using p0 permutedIn_trans by blast
  have ya: "ys ! a = xs0 ! a"
    using L ab assms(4) len0 by (intro permutedIn_outside [of xs0 ys "a + 1" b]) auto
  have lower: "\<And>n. a \<le> n \<Longrightarrow> n < b \<Longrightarrow> k (xs ! pivot) \<le> k (ys ! n)"
    using permutedIn_range_all [OF P _ assms(4), of "\<lambda>x. k (xs ! pivot) \<le> k x"] assms(5) ab
    by auto
  have "\<forall>n. a \<le> n \<and> n < mid \<longrightarrow> k (ys ! n) = k (xs ! pivot)"
  proof (intro allI impI)
    fix n assume h: "a \<le> n \<and> n < mid"
    show "k (ys ! n) = k (xs ! pivot)"
    proof (cases "n = a")
      case True
      then show ?thesis using ya x0a by simp
    next
      case False
      then have "k (ys ! n) \<le> k (xs ! pivot)" using L h x0a by auto
      moreover have "k (xs ! pivot) \<le> k (ys ! n)" using lower h L by auto
      ultimately show ?thesis by simp
    qed
  qed
  then show ?thesis using P L x0a by auto
qed

lemma lowerBounded_permutedIn:
  assumes "lowerBounded k xs a b" and "permutedIn xs ys a b" and "a \<le> b" and "b \<le> length xs"
  shows "lowerBounded k ys a b"
  unfolding lowerBounded_def
proof (intro impI allI)
  fix n assume a0: "0 < a" and h: "a \<le> n \<and> n < b"
  have "ys ! (a - 1) = xs ! (a - 1)"
    using assms a0 h by (intro permutedIn_outside [of xs ys a b]) auto
  moreover have "k (xs ! (a - 1)) \<le> k (ys ! n)"
    using permutedIn_range_all [OF assms(2,3,4), of "\<lambda>x. k (xs ! (a - 1)) \<le> k x" n]
      assms(1) a0 h by (auto simp: lowerBounded_def)
  ultimately show "k (ys ! (a - 1)) \<le> k (ys ! n)" by simp
qed

lemma lowerBounded_mono:
  "lowerBounded k xs a b \<Longrightarrow> b' \<le> b \<Longrightarrow> lowerBounded k xs a b'"
  by (auto simp: lowerBounded_def)

subsection \<open>reverseRange\<close>

lemma reverseLoop_spec:
  "a \<le> i \<Longrightarrow> j < b \<Longrightarrow> b \<le> length xs \<Longrightarrow> permutedIn xs (reverseLoop xs i j) a b"
proof (induction xs i j rule: reverseLoop.induct)
  case (1 xs i j)
  show ?case
  proof (cases "i < j")
    case True
    have "permutedIn xs (dataSwap xs i j) a b"
      using True 1 by (intro permutedIn_swap) auto
    moreover have "permutedIn (dataSwap xs i j) (reverseLoop (dataSwap xs i j) (i + 1) (j - 1)) a b"
      using "1.IH" [OF True] "1.prems" True by auto
    moreover have "reverseLoop xs i j = reverseLoop (dataSwap xs i j) (i + 1) (j - 1)"
      using True by (subst reverseLoop.simps) simp
    ultimately show ?thesis using permutedIn_trans by metis
  next
    case False
    then show ?thesis by (subst reverseLoop.simps) simp
  qed
qed

lemma reverseRange_func_spec:
  "a < b \<Longrightarrow> b \<le> length xs \<Longrightarrow> permutedIn xs (reverseRange_func xs a b) a b"
  unfolding reverseRange_func_def by (intro reverseLoop_spec) auto

subsection \<open>breakPatterns\<close>

lemma bitsLen_1: "bitsLen (Suc 0) = 1"
  by (subst bitsLen.simps, subst bitsLen.simps) simp

lemma bitsLen_bounds: "0 < n \<Longrightarrow> n < 2 ^ bitsLen n \<and> 2 ^ bitsLen n \<le> 2 * n"
proof (induction n rule: bitsLen.induct)
  case (1 n)
  show ?case
  proof (cases "n div 2 = 0")
    case True
    then have "n = 1" using "1.prems" by auto
    then show ?thesis by (simp add: bitsLen_1)
  next
    case False
    then have IH: "n div 2 < 2 ^ bitsLen (n div 2) \<and> 2 ^ bitsLen (n div 2) \<le> 2 * (n div 2)"
      using "1.IH" "1.prems" by simp
    have e: "bitsLen n = 1 + bitsLen (n div 2)"
      using "1.prems" by (subst bitsLen.simps) simp
    show ?thesis unfolding e using IH by auto
  qed
qed

lemma unat_and_modulus: "unat ((r :: 64 word) AND (push_bit n 1 - 1)) < 2 ^ n"
proof -
  have "push_bit n (1 :: 64 word) - 1 = mask n"
    by (simp only: push_bit_of_1 mask_eq_decr_exp)
  moreover have "uint (r AND mask n) < 2 ^ n" by (rule and_mask_lt_2p)
  then have "int (unat (r AND mask n)) < int (2 ^ n)"
    by (simp only: uint_nat of_nat_power of_nat_numeral)
  then have "unat (r AND mask n) < 2 ^ n" by (simp only: of_nat_less_iff)
  ultimately show ?thesis by (simp only:)
qed

lemma breakLoop_spec:
  assumes "a \<le> idx" and "idx + 2 < b" and "b \<le> length xs" and "len = b - a" and "0 < len"
    and "modulus = push_bit (bitsLen len) 1"
  shows "permutedIn xs (breakLoop xs a len modulus idx random i) a b"
  using assms
proof (induction xs a len modulus idx random i rule: breakLoop.induct)
  case (1 xs a len modulus idx random i)
  show ?case
  proof (cases "i < 3")
    case False
    then show ?thesis by (subst breakLoop.simps) simp
  next
    case True
    define random' where "random' = xorshiftNext random"
    define other0 where "other0 = unat (random' AND (modulus - 1))"
    define other where "other = (if other0 \<ge> len then other0 - len else other0)"
    define xs' where "xs' = dataSwap xs (idx + i) (a + other)"
    have "other0 < 2 ^ bitsLen len"
      unfolding other0_def "1.prems"(6) by (rule unat_and_modulus)
    also have "\<dots> \<le> 2 * len" using bitsLen_bounds [OF "1.prems"(5)] by simp
    finally have ol: "other < len" unfolding other_def by auto
    have p: "permutedIn xs xs' a b"
      unfolding xs'_def using "1.prems" True ol by (intro permutedIn_swap) auto
    have e: "breakLoop xs a len modulus idx random i = breakLoop xs' a len modulus idx random' (i + 1)"
      using True
      by (subst breakLoop.simps)
         (simp add: Let_def random'_def other0_def other_def xs'_def)
    have "permutedIn xs' (breakLoop xs' a len modulus idx random' (i + 1)) a b"
      using "1.IH" [OF True random'_def other0_def other_def] "1.prems"
      unfolding xs'_def by simp
    then show ?thesis unfolding e using p permutedIn_trans by blast
  qed
qed

lemma breakPatterns_func_spec:
  assumes "a \<le> b" and "b \<le> length xs"
  shows "permutedIn xs (breakPatterns_func xs a b) a b"
proof (cases "b - a \<ge> 8")
  case False
  then show ?thesis by (simp add: breakPatterns_func_def Let_def)
next
  case True
  have "2 \<le> (b - a) div 4" using True by simp
  moreover have "(b - a) div 4 * 2 + 1 < b - a"
    using True by simp
  ultimately have "permutedIn xs
      (breakLoop xs a (b - a) (nextPowerOfTwo (b - a)) (a + (b - a) div 4 * 2 - 1) (of_nat (b - a)) 0)
      a b"
    using assms True by (intro breakLoop_spec) (auto simp: nextPowerOfTwo_def)
  then show ?thesis using True by (simp add: breakPatterns_func_def Let_def)
qed

subsection \<open>choosePivot\<close>

lemma order2_func_cases:
  "order2_func lt xs a b s = (a', b', s') \<Longrightarrow> (a' = a \<and> b' = b) \<or> (a' = b \<and> b' = a)"
  by (auto simp: order2_func_def split: if_splits)

lemma median_func_in: "fst (median_func lt xs a b c s) \<in> {a, b, c}"
proof -
  obtain a1 b1 s1 where o1: "order2_func lt xs a b s = (a1, b1, s1)"
    by (metis prod_cases3)
  obtain b2 c2 s2 where o2: "order2_func lt xs b1 c s1 = (b2, c2, s2)"
    by (metis prod_cases3)
  obtain a3 b3 s3 where o3: "order2_func lt xs a1 b2 s2 = (a3, b3, s3)"
    by (metis prod_cases3)
  have "fst (median_func lt xs a b c s) = b3"
    by (simp add: median_func_def o1 o2 o3)
  then show ?thesis
    using order2_func_cases [OF o1] order2_func_cases [OF o2] order2_func_cases [OF o3] by auto
qed

lemma medianAdjacent_func_in: "fst (medianAdjacent_func lt xs a s) \<in> {a - 1, a, a + 1}"
  unfolding medianAdjacent_func_def using median_func_in [of lt xs "a - 1" a "a + 1" s] by simp

lemma choosePivot_func_range:
  assumes "8 \<le> b - a" and "choosePivot_func lt xs a b = (pivot, hint)"
  shows "a \<le> pivot \<and> pivot < b"
proof -
  define l where "l = b - a"
  define q where "q = l div 4"
  define i where "i = a + q"
  define j where "j = a + q * 2"
  define m where "m = a + q * 3"
  have l8: "8 \<le> l" using assms(1) l_def by simp
  have ab: "b = a + l" using assms(1) l_def by simp
  have q: "q * 4 \<le> l" "2 \<le> q" unfolding q_def using l8 by auto
  have unf: "choosePivot_func lt xs a b =
     (let (j, swaps) =
            (let (i, j, k, swaps) =
               (if l \<ge> shortestNinther then
                  (let (i, swaps) = medianAdjacent_func lt xs i 0;
                       (j, swaps) = medianAdjacent_func lt xs j swaps;
                       (k, swaps) = medianAdjacent_func lt xs m swaps
                   in (i, j, k, swaps))
                else (i, j, m, 0))
             in median_func lt xs i j k swaps)
      in if swaps = 0 then (j, increasingHint)
         else if swaps = maxSwaps then (j, decreasingHint)
         else (j, unknownHint))"
    using l8 unfolding choosePivot_func_def Let_def l_def i_def j_def m_def q_def by simp
  show ?thesis
  proof (cases "l \<ge> shortestNinther")
    case False
    obtain p s where md: "median_func lt xs i j m 0 = (p, s)" by fastforce
    have "pivot = p"
      using assms(2) False unfolding unf by (simp add: md split: if_splits)
    moreover have "p \<in> {i, j, m}" using median_func_in [of lt xs i j m 0] md by simp
    ultimately show ?thesis unfolding i_def j_def m_def ab using q by auto
  next
    case True
    obtain i' s1 where mi: "medianAdjacent_func lt xs i 0 = (i', s1)" by fastforce
    obtain j' s2 where mj: "medianAdjacent_func lt xs j s1 = (j', s2)" by fastforce
    obtain m' s3 where mm: "medianAdjacent_func lt xs m s2 = (m', s3)" by fastforce
    obtain p s where md: "median_func lt xs i' j' m' s3 = (p, s)" by fastforce
    have "pivot = p"
      using assms(2) True unfolding unf by (simp add: mi mj mm md split: if_splits)
    moreover have "p \<in> {i', j', m'}" using median_func_in [of lt xs i' j' m' s3] md by simp
    moreover have "i' \<in> {i - 1, i, i + 1}" using medianAdjacent_func_in [of lt xs i 0] mi by simp
    moreover have "j' \<in> {j - 1, j, j + 1}" using medianAdjacent_func_in [of lt xs j s1] mj by simp
    moreover have "m' \<in> {m - 1, m, m + 1}" using medianAdjacent_func_in [of lt xs m s2] mm by simp
    ultimately have "a + q - 1 \<le> pivot \<and> pivot \<le> a + q * 3 + 1"
      unfolding i_def j_def m_def by auto
    then show ?thesis unfolding ab using q by auto
  qed
qed

subsection \<open>partialInsertionSort\<close>

lemma shiftLeft_eq_insertionShift:
  assumes "keyOrder lt k" and "a \<le> j" and "j < length xs"
    and "a > 0 \<longrightarrow> (\<forall>n. a \<le> n \<and> n \<le> j \<longrightarrow> k (xs ! (a - 1)) \<le> k (xs ! n))"
  shows "shiftLeft lt xs j = insertionShift lt xs a j"
  using assms
proof (induction lt xs j rule: shiftLeft.induct)
  case (1 lt xs j)
  note K = "1.prems"(1)
  show ?case
  proof (cases "j > a")
    case True
    then have j1: "j \<ge> 1" by simp
    show ?thesis
    proof (cases "dataLess lt xs j (j - 1)")
      case False
      then show ?thesis
        by (subst shiftLeft.simps, subst insertionShift.simps) (simp add: j1)
    next
      case dl: True
      define xs' where "xs' = dataSwap xs j (j - 1)"
      have jl: "j < length xs" "j - 1 < length xs" using "1.prems" by auto
      have nth': "\<And>n. xs' ! n = (if n = j - 1 then xs ! j else if n = j then xs ! (j - 1) else xs ! n)"
        unfolding xs'_def using jl by (simp add: nth_dataSwap)
      have lb: "a > 0 \<longrightarrow> (\<forall>n. a \<le> n \<and> n \<le> j - 1 \<longrightarrow> k (xs' ! (a - 1)) \<le> k (xs' ! n))"
      proof (intro impI allI)
        fix n assume a0: "0 < a" and h: "a \<le> n \<and> n \<le> j - 1"
        have "xs' ! (a - 1) = xs ! (a - 1)" using a0 h True by (auto simp: nth')
        moreover have "k (xs ! (a - 1)) \<le> k (xs' ! n)"
          using "1.prems"(4) a0 h True by (auto simp: nth')
        ultimately show "k (xs' ! (a - 1)) \<le> k (xs' ! n)" by simp
      qed
      have "shiftLeft lt xs' (j - 1) = insertionShift lt xs' a (j - 1)"
        unfolding xs'_def
      proof (rule "1.IH")
        show "1 \<le> j" by (rule j1)
        show "\<not> \<not> dataLess lt xs j (j - 1)" using dl by simp
        show "keyOrder lt k" by (rule K)
        show "a \<le> j - 1" using True by simp
        show "j - 1 < length (dataSwap xs j (j - 1))" using jl by simp
        show "0 < a \<longrightarrow> (\<forall>n. a \<le> n \<and> n \<le> j - 1 \<longrightarrow>
            k (dataSwap xs j (j - 1) ! (a - 1)) \<le> k (dataSwap xs j (j - 1) ! n))"
          using lb unfolding xs'_def .
      qed
      moreover have "shiftLeft lt xs j = shiftLeft lt xs' (j - 1)"
        using dl j1 unfolding xs'_def by (subst shiftLeft.simps) simp
      moreover have "insertionShift lt xs a j = insertionShift lt xs' a (j - 1)"
        using dl True unfolding xs'_def by (subst insertionShift.simps) simp
      ultimately show ?thesis by simp
    qed
  next
    case False
    then have ja: "j = a" using "1.prems"(2) by simp
    have i: "insertionShift lt xs a j = xs"
      using False by (subst insertionShift.simps) simp
    have "shiftLeft lt xs j = xs"
    proof (cases "j \<ge> 1")
      case False
      then show ?thesis by (subst shiftLeft.simps) simp
    next
      case True
      then have "k (xs ! (a - 1)) \<le> k (xs ! a)" using "1.prems"(4) ja by auto
      then have "\<not> dataLess lt xs j (j - 1)" using K ja by (simp add: dataLess_key)
      then show ?thesis by (subst shiftLeft.simps) simp
    qed
    then show ?thesis using i by simp
  qed
qed

lemma partialScan_spec:
  assumes "keyOrder lt k" and "a < i" and "i \<le> b" and "sortedRange k xs a i"
  shows "i \<le> partialScan lt xs b i \<and> partialScan lt xs b i \<le> b \<and>
         sortedRange k xs a (partialScan lt xs b i) \<and>
         (partialScan lt xs b i < b \<longrightarrow>
            k (xs ! partialScan lt xs b i) < k (xs ! (partialScan lt xs b i - 1)))"
  using assms
proof (induction lt xs b i rule: partialScan.induct)
  case (1 lt xs b i)
  note K = "1.prems"(1)
  show ?case
  proof (cases "i < b \<and> \<not> dataLess lt xs i (i - 1)")
    case True
    then have e: "partialScan lt xs b i = partialScan lt xs b (i + 1)"
      by (subst partialScan.simps) simp
    have le: "k (xs ! (i - 1)) \<le> k (xs ! i)" using True K by (simp add: dataLess_key)
    have "sortedRange k xs a (i + 1)"
      unfolding sortedRange_def
    proof (intro allI impI)
      fix p q assume h: "a \<le> p \<and> p < q \<and> q < i + 1"
      show "k (xs ! p) \<le> k (xs ! q)"
      proof (cases "q = i")
        case False
        then show ?thesis using h "1.prems"(4) by (auto simp: sortedRange_def)
      next
        case qi: True
        show ?thesis
        proof (cases "p = i - 1")
          case True
          then show ?thesis using le qi by simp
        next
          case False
          then have "k (xs ! p) \<le> k (xs ! (i - 1))"
            using h qi "1.prems"(4) by (auto simp: sortedRange_def)
          then show ?thesis using le qi by simp
        qed
      qed
    qed
    then show ?thesis
      using "1.IH" [OF True K] True "1.prems" unfolding e by auto
  next
    case False
    then have e: "partialScan lt xs b i = i"
      by (subst partialScan.simps) auto
    show ?thesis unfolding e using False "1.prems" by (auto simp: dataLess_key)
  qed
qed

lemma shiftRight_spec:
  "0 < j \<Longrightarrow> b \<le> length xs \<Longrightarrow> permutedIn xs (shiftRight lt xs b j) (j - 1) b"
proof (induction lt xs b j rule: shiftRight.induct)
  case (1 lt xs b j)
  show ?case
  proof (cases "j < b \<and> dataLess lt xs j (j - 1)")
    case False
    then have "shiftRight lt xs b j = xs" by (subst shiftRight.simps) auto
    then show ?thesis by simp
  next
    case True
    define xs' where "xs' = dataSwap xs j (j - 1)"
    have e: "shiftRight lt xs b j = shiftRight lt xs' b (j + 1)"
      using True unfolding xs'_def by (subst shiftRight.simps) simp
    have "permutedIn xs xs' (j - 1) b"
      unfolding xs'_def using True "1.prems" by (intro permutedIn_swap) auto
    moreover have "permutedIn xs' (shiftRight lt xs' b (j + 1)) (j + 1 - 1) b"
      unfolding xs'_def using True "1.prems" by (intro "1.IH") auto
    then have "permutedIn xs' (shiftRight lt xs' b (j + 1)) (j - 1) b"
      by (rule permutedIn_mono) auto
    ultimately show ?thesis unfolding e using permutedIn_trans by blast
  qed
qed

lemma sortedRange_outside:
  assumes "sortedRange k xs a i" and "permutedIn xs ys i b" and "i \<le> length xs"
  shows "sortedRange k ys a i"
  unfolding sortedRange_def
proof (intro allI impI)
  fix p q assume h: "a \<le> p \<and> p < q \<and> q < i"
  have "ys ! p = xs ! p" "ys ! q = xs ! q"
    using assms(2,3) h by (auto intro!: permutedIn_outside [of xs ys i b])
  then show "k (ys ! p) \<le> k (ys ! q)" using assms(1) h by (auto simp: sortedRange_def)
qed

lemma partialLoop_spec:
  assumes "keyOrder lt k" and "a < i" and "i \<le> b" and "b \<le> length xs"
    and "sortedRange k xs a i" and "lowerBounded k xs a b"
    and "partialLoop lt xs a b i j = (ys, s)"
  shows "permutedIn xs ys a b \<and> (s \<longrightarrow> sortedRange k ys a b)"
  using assms
proof (induction lt xs a b i j rule: partialLoop.induct)
  case (1 lt xs a b i j)
  note K = "1.prems"(1)
  show ?case
  proof (cases "j < maxSteps")
    case False
    then have "partialLoop lt xs a b i j = (xs, False)" by (subst partialLoop.simps) simp
    then show ?thesis using "1.prems"(7) by auto
  next
    case c1: True
    define i1 where "i1 = partialScan lt xs b i"
    have sc: "i \<le> i1 \<and> i1 \<le> b \<and> sortedRange k xs a i1 \<and>
         (i1 < b \<longrightarrow> k (xs ! i1) < k (xs ! (i1 - 1)))"
      unfolding i1_def using "1.prems" by (intro partialScan_spec) auto
    show ?thesis
    proof (cases "i1 = b")
      case True
      then have "partialLoop lt xs a b i j = (xs, True)"
        using c1 by (subst partialLoop.simps) (simp add: Let_def i1_def)
      then show ?thesis using "1.prems"(7) sc True by auto
    next
      case c2: False
      show ?thesis
      proof (cases "b - a < shortestShifting")
        case True
        then have "partialLoop lt xs a b i j = (xs, False)"
          using c1 c2 by (subst partialLoop.simps) (simp add: Let_def i1_def)
        then show ?thesis using "1.prems"(7) by auto
      next
        case c3: False
        define xs1 where "xs1 = dataSwap xs i1 (i1 - 1)"
        define xs2 where "xs2 = (if i1 - a \<ge> 2 then shiftLeft lt xs1 (i1 - 1) else xs1)"
        define xs3 where "xs3 = (if b - i1 \<ge> 2 then shiftRight lt xs2 b (i1 + 1) else xs2)"
        have ib: "i1 < b" "a < i1" using sc c2 "1.prems"(2) by auto
        have rec: "partialLoop lt xs a b i j = partialLoop lt xs3 a b i1 (j + 1)"
          unfolding xs3_def xs2_def xs1_def i1_def
          by (subst partialLoop.simps)
             (simp only: Let_def c1 c2 [unfolded i1_def] c3 if_True if_False)
        have p1: "permutedIn xs xs1 a b"
          unfolding xs1_def using ib "1.prems"(4) by (intro permutedIn_swap) auto
        have len1: "length xs1 = length xs" by (simp add: xs1_def)
        have lb1: "lowerBounded k xs1 a b"
          by (rule lowerBounded_permutedIn [OF "1.prems"(6) p1]) (use ib "1.prems"(4) in auto)
        have nth1: "\<And>n. xs1 ! n = (if n = i1 - 1 then xs ! i1 else if n = i1 then xs ! (i1 - 1) else xs ! n)"
          unfolding xs1_def using ib "1.prems"(4) by (simp add: nth_dataSwap)
        have s2: "permutedIn xs1 xs2 a i1 \<and> sortedRange k xs2 a i1"
        proof (cases "i1 - a \<ge> 2")
          case False
          then have "xs2 = xs1" by (simp add: xs2_def)
          moreover have "sortedRange k xs1 a i1" using False by (auto simp: sortedRange_def)
          ultimately show ?thesis by simp
        next
          case True
          have "0 < a \<longrightarrow> (\<forall>n. a \<le> n \<and> n \<le> i1 - 1 \<longrightarrow> k (xs1 ! (a - 1)) \<le> k (xs1 ! n))"
            using lb1 ib by (auto simp: lowerBounded_def)
          then have e: "shiftLeft lt xs1 (i1 - 1) = insertionShift lt xs1 a (i1 - 1)"
            using K True ib "1.prems"(4) len1 by (intro shiftLeft_eq_insertionShift) auto
          have "\<forall>p q. a \<le> p \<and> p < q \<and> q \<le> i1 - 1 \<and> q \<noteq> i1 - 1 \<longrightarrow> k (xs1 ! p) \<le> k (xs1 ! q)"
          proof (intro allI impI)
            fix p q assume h: "a \<le> p \<and> p < q \<and> q \<le> i1 - 1 \<and> q \<noteq> i1 - 1"
            then have "xs1 ! p = xs ! p" "xs1 ! q = xs ! q" by (auto simp: nth1)
            moreover have "k (xs ! p) \<le> k (xs ! q)" using sc h by (auto simp: sortedRange_def)
            ultimately show "k (xs1 ! p) \<le> k (xs1 ! q)" by simp
          qed
          then have "permutedIn xs1 (insertionShift lt xs1 a (i1 - 1)) a (i1 - 1 + 1) \<and>
                sortedRange k (insertionShift lt xs1 a (i1 - 1)) a (i1 - 1 + 1)"
            using K True ib "1.prems"(4) len1 by (intro insertionShift_spec) auto
          then show ?thesis using True e ib by (simp add: xs2_def)
        qed
        have len2: "length xs2 = length xs" using s2 len1 by (simp add: permutedIn_def)
        have s3: "permutedIn xs2 xs3 i1 b"
        proof (cases "b - i1 \<ge> 2")
          case False
          then show ?thesis by (simp add: xs3_def)
        next
          case True
          have "permutedIn xs2 (shiftRight lt xs2 b (i1 + 1)) (i1 + 1 - 1) b"
            using "1.prems"(4) len2 by (intro shiftRight_spec) auto
          then show ?thesis using True by (simp add: xs3_def)
        qed
        have sorted3: "sortedRange k xs3 a i1"
          by (rule sortedRange_outside [OF _ s3]) (use s2 ib "1.prems"(4) len2 in auto)
        have p3: "permutedIn xs xs3 a b"
        proof -
          have "permutedIn xs1 xs2 a b" using s2 ib by (auto intro: permutedIn_mono)
          moreover have "permutedIn xs2 xs3 a b" using s3 ib by (auto intro: permutedIn_mono)
          ultimately show ?thesis using p1 permutedIn_trans by blast
        qed
        have len3: "length xs3 = length xs" using p3 by (simp add: permutedIn_def)
        have lb3: "lowerBounded k xs3 a b"
          by (rule lowerBounded_permutedIn [OF "1.prems"(6) p3]) (use ib "1.prems"(4) in auto)
        have "permutedIn xs3 ys a b \<and> (s \<longrightarrow> sortedRange k ys a b)"
        proof (rule "1.IH" [OF c1 i1_def c2 c3 xs1_def xs2_def xs3_def K])
          show "a < i1" using ib by simp
          show "i1 \<le> b" using ib by simp
          show "b \<le> length xs3" using len3 "1.prems"(4) by simp
          show "sortedRange k xs3 a i1" by (rule sorted3)
          show "lowerBounded k xs3 a b" by (rule lb3)
          show "partialLoop lt xs3 a b i1 (j + 1) = (ys, s)" using rec "1.prems"(7) by simp
        qed
        then show ?thesis using p3 permutedIn_trans by blast
      qed
    qed
  qed
qed

lemma partialInsertionSort_func_spec:
  assumes "keyOrder lt k" and "a < b" and "b \<le> length xs" and "lowerBounded k xs a b"
    and "partialInsertionSort_func lt xs a b = (ys, s)"
  shows "permutedIn xs ys a b \<and> (s \<longrightarrow> sortedRange k ys a b)"
  using assms unfolding partialInsertionSort_func_def
  by (intro partialLoop_spec [where i = "a + 1" and j = 0]) (auto simp: sortedRange_def)

subsection \<open>siftDown and the heap\<close>

lemma isChild_less: "isChild r c \<Longrightarrow> r < c"
  by (auto simp: isChild_def)

lemma isChild_parent_unique: "isChild r c \<Longrightarrow> isChild r' c \<Longrightarrow> r = r'"
  by (auto simp: isChild_def)

lemma siftDownFrom_spec:
  assumes "keyOrder lt k" and "first + hi \<le> length xs" and "lo \<le> root"
    and "\<forall>r c. lo \<le> r \<and> r \<noteq> root \<and> isChild r c \<and> c < hi \<longrightarrow>
           k (xs ! (first + c)) \<le> k (xs ! (first + r))"
    and "\<forall>p c. lo \<le> p \<and> isChild p root \<and> isChild root c \<and> c < hi \<longrightarrow>
           k (xs ! (first + c)) \<le> k (xs ! (first + p))"
  shows "heapFrom k (siftDownFrom lt xs root hi first) first hi lo \<and>
         permutedIn xs (siftDownFrom lt xs root hi first) first (first + hi)"
  using assms
proof (induction lt xs root hi first rule: siftDownFrom.induct)
  case (1 lt xs root hi first)
  note K = "1.prems"(1)
  have A: "\<And>r c. lo \<le> r \<Longrightarrow> r \<noteq> root \<Longrightarrow> isChild r c \<Longrightarrow> c < hi \<Longrightarrow>
           k (xs ! (first + c)) \<le> k (xs ! (first + r))"
    using "1.prems"(4) by blast
  have B: "\<And>p c. lo \<le> p \<Longrightarrow> isChild p root \<Longrightarrow> isChild root c \<Longrightarrow> c < hi \<Longrightarrow>
           k (xs ! (first + c)) \<le> k (xs ! (first + p))"
    using "1.prems"(5) by blast
  define child where "child = 2 * root + 1"
  show ?case
  proof (cases "child \<ge> hi")
    case True
    then have e: "siftDownFrom lt xs root hi first = xs"
      by (subst siftDownFrom.simps) (simp add: Let_def child_def)
    have "heapFrom k xs first hi lo"
      unfolding heapFrom_def
    proof (intro allI impI)
      fix r c assume h: "lo \<le> r \<and> isChild r c \<and> c < hi"
      then have "r \<noteq> root" using True by (auto simp: isChild_def child_def)
      then show "k (xs ! (first + c)) \<le> k (xs ! (first + r))" using A h by blast
    qed
    then show ?thesis unfolding e by simp
  next
    case c1: False
    define child' where
      "child' = (if child + 1 < hi \<and> dataLess lt xs (first + child) (first + child + 1)
                 then child + 1 else child)"
    have ch: "isChild root child'" "child' < hi" "root < child'"
      using c1 by (auto simp: child'_def child_def isChild_def)
    have largest: "\<And>c. isChild root c \<Longrightarrow> c < hi \<Longrightarrow>
        k (xs ! (first + c)) \<le> k (xs ! (first + child'))"
    proof -
      fix c assume "isChild root c" "c < hi"
      then have cc: "c = child \<or> c = child + 1" by (auto simp: isChild_def child_def)
      show "k (xs ! (first + c)) \<le> k (xs ! (first + child'))"
      proof (cases "child + 1 < hi \<and> dataLess lt xs (first + child) (first + child + 1)")
        case True
        then have "child' = child + 1" by (simp add: child'_def)
        moreover have "k (xs ! (first + child)) < k (xs ! (first + child + 1))"
          using True K by (simp add: dataLess_key)
        ultimately show ?thesis using cc by (auto simp: add.assoc)
      next
        case False
        then have c': "child' = child" by (simp add: child'_def)
        have "c = child + 1 \<Longrightarrow> k (xs ! (first + child + 1)) \<le> k (xs ! (first + child))"
          using False \<open>c < hi\<close> K by (auto simp: dataLess_key)
        then show ?thesis using cc c' by (auto simp: add.assoc)
      qed
    qed
    show ?thesis
    proof (cases "dataLess lt xs (first + root) (first + child')")
      case False
      then have e: "siftDownFrom lt xs root hi first = xs"
        using c1 unfolding child'_def child_def
        by (subst siftDownFrom.simps) (auto simp: Let_def split: if_splits)
      have rc: "k (xs ! (first + child')) \<le> k (xs ! (first + root))"
        using False K by (simp add: dataLess_key)
      have "heapFrom k xs first hi lo"
        unfolding heapFrom_def
      proof (intro allI impI)
        fix r c assume h: "lo \<le> r \<and> isChild r c \<and> c < hi"
        show "k (xs ! (first + c)) \<le> k (xs ! (first + r))"
        proof (cases "r = root")
          case True
          then show ?thesis using largest [of c] h rc by auto
        next
          case False
          then show ?thesis using A h by blast
        qed
      qed
      then show ?thesis unfolding e by simp
    next
      case c2: True
      define xs' where "xs' = dataSwap xs (first + root) (first + child')"
      have e: "siftDownFrom lt xs root hi first = siftDownFrom lt xs' child' hi first"
        using c1 c2 unfolding xs'_def child'_def child_def
        by (subst siftDownFrom.simps) (auto simp: Let_def split: if_splits)
      have lt: "k (xs ! (first + root)) < k (xs ! (first + child'))"
        using c2 K by (simp add: dataLess_key)
      have bnd: "first + root < length xs" "first + child' < length xs"
        using ch "1.prems"(2) by auto
      have xr: "xs' ! (first + root) = xs ! (first + child')"
        unfolding xs'_def using bnd ch by (simp add: nth_dataSwap)
      have xc: "xs' ! (first + child') = xs ! (first + root)"
        unfolding xs'_def using bnd by (simp add: nth_dataSwap)
      have xo: "\<And>n. n \<noteq> root \<Longrightarrow> n \<noteq> child' \<Longrightarrow> xs' ! (first + n) = xs ! (first + n)"
        unfolding xs'_def using bnd by (simp add: nth_dataSwap)
      have A': "\<forall>r c. lo \<le> r \<and> r \<noteq> child' \<and> isChild r c \<and> c < hi \<longrightarrow>
           k (xs' ! (first + c)) \<le> k (xs' ! (first + r))"
      proof (intro allI impI)
        fix r c assume h: "lo \<le> r \<and> r \<noteq> child' \<and> isChild r c \<and> c < hi"
        have rc: "r < c" using h isChild_less by blast
        show "k (xs' ! (first + c)) \<le> k (xs' ! (first + r))"
        proof (cases "r = root")
          case True
          show ?thesis
          proof (cases "c = child'")
            case True
            then show ?thesis using \<open>r = root\<close> lt xr xc by simp
          next
            case False
            then have "xs' ! (first + c) = xs ! (first + c)" using rc \<open>r = root\<close> by (intro xo) auto
            moreover have "k (xs ! (first + c)) \<le> k (xs ! (first + child'))"
              using largest [of c] h \<open>r = root\<close> by auto
            ultimately show ?thesis using \<open>r = root\<close> xr by simp
          qed
        next
          case False
          then have xr': "xs' ! (first + r) = xs ! (first + r)" using h by (intro xo) auto
          show ?thesis
          proof (cases "c = root")
            case True
            then have "k (xs ! (first + child')) \<le> k (xs ! (first + r))"
              using B [of r child'] h ch by auto
            then show ?thesis using True xr xr' by simp
          next
            case cr: False
            have "c \<noteq> child'"
            proof
              assume "c = child'"
              then have "r = root" using h ch isChild_parent_unique by blast
              then show False using False by simp
            qed
            then have "xs' ! (first + c) = xs ! (first + c)" using cr by (intro xo) auto
            moreover have "k (xs ! (first + c)) \<le> k (xs ! (first + r))"
              using A [of r c] h False by auto
            ultimately show ?thesis using xr' by simp
          qed
        qed
      qed
      have B': "\<forall>p c. lo \<le> p \<and> isChild p child' \<and> isChild child' c \<and> c < hi \<longrightarrow>
           k (xs' ! (first + c)) \<le> k (xs' ! (first + p))"
      proof (intro allI impI)
        fix p c assume h: "lo \<le> p \<and> isChild p child' \<and> isChild child' c \<and> c < hi"
        then have p: "p = root" using ch isChild_parent_unique by blast
        have "child' < c" using h isChild_less by blast
        then have "xs' ! (first + c) = xs ! (first + c)" using ch by (intro xo) auto
        moreover have "k (xs ! (first + c)) \<le> k (xs ! (first + child'))"
          using A [of child' c] h ch "1.prems"(3) by auto
        ultimately show "k (xs' ! (first + c)) \<le> k (xs' ! (first + p))" using p xr by simp
      qed
      have IH: "heapFrom k (siftDownFrom lt xs' child' hi first) first hi lo \<and>
         permutedIn xs' (siftDownFrom lt xs' child' hi first) first (first + hi)"
        unfolding xs'_def
      proof (rule "1.IH" [OF child_def c1 child'_def _ K])
        show "\<not> \<not> dataLess lt xs (first + root) (first + child')" using c2 by simp
        show "first + hi \<le> length (dataSwap xs (first + root) (first + child'))"
          using "1.prems"(2) by simp
        show "lo \<le> child'" using ch "1.prems"(3) by simp
        show "\<forall>r c. lo \<le> r \<and> r \<noteq> child' \<and> isChild r c \<and> c < hi \<longrightarrow>
           k (dataSwap xs (first + root) (first + child') ! (first + c))
           \<le> k (dataSwap xs (first + root) (first + child') ! (first + r))"
          using A' unfolding xs'_def .
        show "\<forall>p c. lo \<le> p \<and> isChild p child' \<and> isChild child' c \<and> c < hi \<longrightarrow>
           k (dataSwap xs (first + root) (first + child') ! (first + c))
           \<le> k (dataSwap xs (first + root) (first + child') ! (first + p))"
          using B' unfolding xs'_def .
      qed
      have "permutedIn xs xs' first (first + hi)"
        unfolding xs'_def using ch "1.prems"(2) by (intro permutedIn_swap) auto
      then show ?thesis unfolding e using IH permutedIn_trans by blast
    qed
  qed
qed

lemma heap_root_max:
  assumes "heapFrom k xs first m 0"
  shows "c < m \<Longrightarrow> k (xs ! (first + c)) \<le> k (xs ! first)"
proof (induction c rule: less_induct)
  case (less c)
  show ?case
  proof (cases "c = 0")
    case True
    then show ?thesis by simp
  next
    case False
    define p where "p = (c - 1) div 2"
    have pc: "isChild p c" using False unfolding p_def isChild_def by presburger
    then have "p < c" by (rule isChild_less)
    then have "k (xs ! (first + p)) \<le> k (xs ! first)" using less by simp
    moreover have "k (xs ! (first + c)) \<le> k (xs ! (first + p))"
      using assms pc less.prems by (auto simp: heapFrom_def)
    ultimately show ?thesis by simp
  qed
qed

lemma siftDown_func_heap:
  assumes "keyOrder lt k" and "first + hi \<le> length xs" and "heapFrom k xs first hi (lo + 1)"
  shows "heapFrom k (siftDown_func lt xs lo hi first) first hi lo \<and>
         permutedIn xs (siftDown_func lt xs lo hi first) first (first + hi)"
  unfolding siftDown_func_def
proof (rule siftDownFrom_spec [OF assms(1,2)])
  show "lo \<le> lo" by simp
  show "\<forall>r c. lo \<le> r \<and> r \<noteq> lo \<and> isChild r c \<and> c < hi \<longrightarrow>
          k (xs ! (first + c)) \<le> k (xs ! (first + r))"
    using assms(3) by (auto simp: heapFrom_def)
  show "\<forall>p c. lo \<le> p \<and> isChild p lo \<and> isChild lo c \<and> c < hi \<longrightarrow>
          k (xs ! (first + c)) \<le> k (xs ! (first + p))"
    using isChild_less by fastforce
qed

lemma heapBuild_spec:
  assumes "keyOrder lt k" and "first + hi \<le> length xs" and "- 1 \<le> i"
    and "heapFrom k xs first hi (nat (i + 1))"
  shows "heapFrom k (heapBuild lt xs hi first i) first hi 0 \<and>
         permutedIn xs (heapBuild lt xs hi first i) first (first + hi)"
  using assms
proof (induction lt xs hi first i rule: heapBuild.induct)
  case (1 lt xs hi first i)
  show ?case
  proof (cases "i \<ge> 0")
    case False
    then have "heapBuild lt xs hi first i = xs" by (subst heapBuild.simps) simp
    moreover have "nat (i + 1) = 0" using False by simp
    ultimately show ?thesis using "1.prems"(4) by simp
  next
    case True
    define xs' where "xs' = siftDown_func lt xs (nat i) hi first"
    have e: "heapBuild lt xs hi first i = heapBuild lt xs' hi first (i - 1)"
      using True unfolding xs'_def by (subst heapBuild.simps) simp
    have "nat (i + 1) = nat i + 1" using True by simp
    then have s: "heapFrom k xs' first hi (nat i) \<and> permutedIn xs xs' first (first + hi)"
      unfolding xs'_def using "1.prems" by (intro siftDown_func_heap) auto
    then have len: "length xs' = length xs" by (simp add: permutedIn_def)
    have "nat (i - 1 + 1) = nat i" by simp
    then have "heapFrom k (heapBuild lt xs' hi first (i - 1)) first hi 0 \<and>
          permutedIn xs' (heapBuild lt xs' hi first (i - 1)) first (first + hi)"
      unfolding xs'_def
      using "1.IH" [OF True "1.prems"(1)] s len "1.prems"(2) True unfolding xs'_def by auto
    then show ?thesis unfolding e using s permutedIn_trans by blast
  qed
qed

subsection \<open>heapSort\<close>

lemma heapPop_spec:
  assumes "keyOrder lt k" and "- 1 \<le> i" and "first + hi0 \<le> length xs" and "i + 1 \<le> int hi0"
    and "heapFrom k xs first (nat (i + 1)) 0"
    and "sortedRange k xs (first + nat (i + 1)) (first + hi0)"
    and "\<forall>c t. c < nat (i + 1) \<and> first + nat (i + 1) \<le> t \<and> t < first + hi0 \<longrightarrow>
           k (xs ! (first + c)) \<le> k (xs ! t)"
  shows "sortedRange k (heapPop lt xs first i) first (first + hi0) \<and>
         permutedIn xs (heapPop lt xs first i) first (first + hi0)"
  using assms
proof (induction lt xs first i rule: heapPop.induct)
  case (1 lt xs first i)
  note K = "1.prems"(1)
  show ?case
  proof (cases "i \<ge> 0")
    case False
    then have "heapPop lt xs first i = xs" by (subst heapPop.simps) simp
    moreover have "nat (i + 1) = 0" using False by simp
    ultimately show ?thesis using "1.prems"(6) by simp
  next
    case True
    define n where "n = nat i"
    have m: "nat (i + 1) = n + 1" using True by (simp add: n_def)
    have nb: "n < hi0" using "1.prems"(4) True by (simp add: n_def)
    define xs1 where "xs1 = dataSwap xs first (first + n)"
    define xs2 where "xs2 = siftDown_func lt xs1 0 n first"
    have e: "heapPop lt xs first i = heapPop lt xs2 first (i - 1)"
      using True unfolding xs2_def xs1_def n_def by (subst heapPop.simps) simp
    have H: "heapFrom k xs first (n + 1) 0" using "1.prems"(5) m by simp
    have T: "sortedRange k xs (first + (n + 1)) (first + hi0)" using "1.prems"(6) m by simp
    have D: "\<And>c t. c < n + 1 \<Longrightarrow> first + (n + 1) \<le> t \<Longrightarrow> t < first + hi0 \<Longrightarrow>
           k (xs ! (first + c)) \<le> k (xs ! t)"
      using "1.prems"(7) m by simp
    have mx: "\<And>c. c < n + 1 \<Longrightarrow> k (xs ! (first + c)) \<le> k (xs ! first)"
      using heap_root_max [OF H] by simp
    have bnd: "first < length xs" "first + n < length xs" using nb "1.prems"(3) by auto
    have len1: "length xs1 = length xs" by (simp add: xs1_def)
    have x1n: "xs1 ! (first + n) = xs ! first"
      unfolding xs1_def using bnd by (simp add: nth_dataSwap)
    have x1f: "xs1 ! first = xs ! (first + n)"
      unfolding xs1_def using bnd by (simp add: nth_dataSwap)
    have x1o: "\<And>t. t \<noteq> first \<Longrightarrow> t \<noteq> first + n \<Longrightarrow> xs1 ! t = xs ! t"
      unfolding xs1_def using bnd by (simp add: nth_dataSwap)
    have p1: "permutedIn xs xs1 first (first + hi0)"
      unfolding xs1_def using nb "1.prems"(3) by (intro permutedIn_swap) auto
    have h1: "heapFrom k xs1 first n (0 + 1)"
      unfolding heapFrom_def
    proof (intro allI impI)
      fix r c assume h: "0 + 1 \<le> r \<and> isChild r c \<and> c < n"
      then have rc: "r < c" using isChild_less by blast
      have "xs1 ! (first + c) = xs ! (first + c)" using h rc by (intro x1o) auto
      moreover have "xs1 ! (first + r) = xs ! (first + r)" using h rc by (intro x1o) auto
      moreover have "k (xs ! (first + c)) \<le> k (xs ! (first + r))"
        using H h by (auto simp: heapFrom_def)
      ultimately show "k (xs1 ! (first + c)) \<le> k (xs1 ! (first + r))" by simp
    qed
    have s2: "heapFrom k xs2 first n 0 \<and> permutedIn xs1 xs2 first (first + n)"
      unfolding xs2_def using K h1 nb "1.prems"(3) len1 by (intro siftDown_func_heap) auto
    have p2: "permutedIn xs1 xs2 first (first + n)" using s2 by simp
    have len2: "length xs2 = length xs" using p2 len1 by (simp add: permutedIn_def)
    have x2t: "\<And>t. first + n \<le> t \<Longrightarrow> t < first + hi0 \<Longrightarrow> xs2 ! t = xs1 ! t"
      using p2 "1.prems"(3) len1 by (intro permutedIn_outside [of xs1 xs2 first "first + n"]) auto
    have T': "sortedRange k xs2 (first + n) (first + hi0)"
      unfolding sortedRange_def
    proof (intro allI impI)
      fix p q assume h: "first + n \<le> p \<and> p < q \<and> q < first + hi0"
      have q1: "xs1 ! q = xs ! q" using h by (intro x1o) auto
      show "k (xs2 ! p) \<le> k (xs2 ! q)"
      proof (cases "p = first + n")
        case True
        have "k (xs ! (first + 0)) \<le> k (xs ! q)" using h True by (intro D) auto
        then show ?thesis using True x1n q1 x2t [of p] x2t [of q] h by simp
      next
        case False
        then have "xs1 ! p = xs ! p" using h by (intro x1o) auto
        moreover have "k (xs ! p) \<le> k (xs ! q)" using T h False by (auto simp: sortedRange_def)
        ultimately show ?thesis using q1 x2t [of p] x2t [of q] h by simp
      qed
    qed
    have D1: "\<And>c t. c < n \<Longrightarrow> first + n \<le> t \<Longrightarrow> t < first + hi0 \<Longrightarrow>
        k (xs1 ! (first + c)) \<le> k (xs1 ! t)"
    proof -
      fix c t assume h: "c < n" "first + n \<le> t" "t < first + hi0"
      have src: "\<exists>c'. c' < n + 1 \<and> xs1 ! (first + c) = xs ! (first + c')"
      proof (cases "c = 0")
        case True
        then show ?thesis using x1f by (intro exI [of _ n]) auto
      next
        case False
        then have "xs1 ! (first + c) = xs ! (first + c)" using h by (intro x1o) auto
        then show ?thesis using h by (intro exI [of _ c]) auto
      qed
      then obtain c' where c': "c' < n + 1" "xs1 ! (first + c) = xs ! (first + c')" by blast
      show "k (xs1 ! (first + c)) \<le> k (xs1 ! t)"
      proof (cases "t = first + n")
        case True
        then show ?thesis using mx [OF c'(1)] c'(2) x1n by simp
      next
        case False
        then have "xs1 ! t = xs ! t" using h by (intro x1o) auto
        moreover have "k (xs ! (first + c')) \<le> k (xs ! t)" using c'(1) h False by (intro D) auto
        ultimately show ?thesis using c'(2) by simp
      qed
    qed
    have D': "\<forall>c t. c < nat (i - 1 + 1) \<and> first + nat (i - 1 + 1) \<le> t \<and> t < first + hi0 \<longrightarrow>
           k (xs2 ! (first + c)) \<le> k (xs2 ! t)"
    proof (intro allI impI)
      fix c t assume h: "c < nat (i - 1 + 1) \<and> first + nat (i - 1 + 1) \<le> t \<and> t < first + hi0"
      then have h': "c < n" "first + n \<le> t" "t < first + hi0" by (auto simp: n_def)
      have "\<forall>j. first \<le> j \<and> j < first + n \<longrightarrow> k (xs1 ! j) \<le> k (xs1 ! t)"
      proof (intro allI impI)
        fix j assume "first \<le> j \<and> j < first + n"
        then have "k (xs1 ! (first + (j - first))) \<le> k (xs1 ! t)" using h' by (intro D1) auto
        then show "k (xs1 ! j) \<le> k (xs1 ! t)" using \<open>first \<le> j \<and> j < first + n\<close> by simp
      qed
      then have "k (xs2 ! (first + c)) \<le> k (xs1 ! t)"
        using permutedIn_range_all [OF p2, of "\<lambda>x. k x \<le> k (xs1 ! t)" "first + c"]
          h' nb "1.prems"(3) len1 by auto
      then show "k (xs2 ! (first + c)) \<le> k (xs2 ! t)" using x2t [of t] h' by simp
    qed
    have ni: "nat (i - 1 + 1) = n" by (simp add: n_def)
    have IH: "sortedRange k (heapPop lt xs2 first (i - 1)) first (first + hi0) \<and>
         permutedIn xs2 (heapPop lt xs2 first (i - 1)) first (first + hi0)"
      unfolding xs2_def xs1_def n_def
    proof (rule "1.IH" [OF True K])
      show "- 1 \<le> i - 1" using True by simp
      show "first + hi0 \<le> length (siftDown_func lt (dataSwap xs first (first + nat i)) 0 (nat i) first)"
        using len2 "1.prems"(3) unfolding xs2_def xs1_def n_def by simp
      show "i - 1 + 1 \<le> int hi0" using "1.prems"(4) by simp
      show "heapFrom k (siftDown_func lt (dataSwap xs first (first + nat i)) 0 (nat i) first)
             first (nat (i - 1 + 1)) 0"
        using s2 ni unfolding xs2_def xs1_def n_def by simp
      show "sortedRange k (siftDown_func lt (dataSwap xs first (first + nat i)) 0 (nat i) first)
             (first + nat (i - 1 + 1)) (first + hi0)"
        using T' ni unfolding xs2_def xs1_def n_def by simp
      show "\<forall>c t. c < nat (i - 1 + 1) \<and> first + nat (i - 1 + 1) \<le> t \<and> t < first + hi0 \<longrightarrow>
           k (siftDown_func lt (dataSwap xs first (first + nat i)) 0 (nat i) first ! (first + c))
           \<le> k (siftDown_func lt (dataSwap xs first (first + nat i)) 0 (nat i) first ! t)"
        using D' unfolding xs2_def xs1_def n_def .
    qed
    have "permutedIn xs1 xs2 first (first + hi0)"
      using p2 nb by (auto intro: permutedIn_mono)
    then have "permutedIn xs xs2 first (first + hi0)" using p1 permutedIn_trans by blast
    then show ?thesis unfolding e using IH permutedIn_trans by blast
  qed
qed

lemma quo_half: "quo (int hi - 1) 2 = int ((hi - 1) div 2)"
proof (cases "hi \<le> 1")
  case True
  then have "hi = 0 \<or> hi = 1" by auto
  then show ?thesis by (auto simp: quo_def)
next
  case False
  then have x: "int hi - 1 = int (hi - 1)" and pos: "0 < int (hi - 1)" by auto
  have s: "sgn (int (hi - 1)) = 1" using pos by (rule sgn_pos)
  have a: "\<bar>int (hi - 1)\<bar> = int (hi - 1)" by (rule abs_of_nat)
  have "quo (int hi - 1) 2 = quo (int (hi - 1)) 2" by (simp only: x)
  also have "\<dots> = int (hi - 1) div 2"
    unfolding quo_def s a by simp
  also have "\<dots> = int ((hi - 1) div 2)" by presburger
  finally show ?thesis .
qed

lemma half_bound: "(hi - 1) div 2 + 1 \<le> r \<Longrightarrow> hi \<le> 2 * r + 1" for hi r :: nat
  by presburger

lemma heapSort_func_spec:
  assumes "keyOrder lt k" and "a \<le> b" and "b \<le> length xs"
  shows "permutedIn xs (heapSort_func lt xs a b) a b \<and>
         sortedRange k (heapSort_func lt xs a b) a b"
proof -
  define hi where "hi = b - a"
  define q where "q = (hi - 1) div 2"
  define xs1 where "xs1 = heapBuild lt xs hi a (int q)"
  have ab: "a + hi = b" using assms(2) by (simp add: hi_def)
  have e: "heapSort_func lt xs a b = heapPop lt xs1 a (int hi - 1)"
    unfolding heapSort_func_def Let_def xs1_def q_def hi_def by (simp add: quo_half)
  have "heapFrom k xs a hi (nat (int q + 1))"
    unfolding heapFrom_def
  proof (intro allI impI)
    fix r c assume h: "nat (int q + 1) \<le> r \<and> isChild r c \<and> c < hi"
    moreover have "nat (int q + 1) = q + 1" by linarith
    ultimately have "(hi - 1) div 2 + 1 \<le> r" by (simp only: q_def)
    then have "hi \<le> 2 * r + 1" by (rule half_bound)
    then have False using h by (auto simp: isChild_def)
    then show "k (xs ! (a + c)) \<le> k (xs ! (a + r))" ..
  qed
  then have b1: "heapFrom k xs1 a hi 0 \<and> permutedIn xs xs1 a (a + hi)"
    unfolding xs1_def using assms ab by (intro heapBuild_spec) auto
  then have len1: "length xs1 = length xs" by (simp add: permutedIn_def)
  have "sortedRange k (heapPop lt xs1 a (int hi - 1)) a (a + hi) \<and>
        permutedIn xs1 (heapPop lt xs1 a (int hi - 1)) a (a + hi)"
  proof (rule heapPop_spec [OF assms(1)])
    show "- 1 \<le> int hi - 1" by simp
    show "a + hi \<le> length xs1" using len1 ab assms(3) by simp
    show "int hi - 1 + 1 \<le> int hi" by simp
    show "heapFrom k xs1 a (nat (int hi - 1 + 1)) 0" using b1 by simp
    show "sortedRange k xs1 (a + nat (int hi - 1 + 1)) (a + hi)" by (simp add: sortedRange_def)
    show "\<forall>c t. c < nat (int hi - 1 + 1) \<and> a + nat (int hi - 1 + 1) \<le> t \<and> t < a + hi \<longrightarrow>
           k (xs1 ! (a + c)) \<le> k (xs1 ! t)" by simp
  qed
  then show ?thesis unfolding e using b1 ab permutedIn_trans by blast
qed

subsection \<open>pdqsort\<close>

lemma sortedRange_join:
  assumes "sortedRange k zs a mid" and "sortedRange k zs (mid + 1) b"
    and "\<forall>n. a \<le> n \<and> n < mid \<longrightarrow> k (zs ! n) \<le> k (zs ! mid)"
    and "\<forall>n. mid < n \<and> n < b \<longrightarrow> k (zs ! mid) \<le> k (zs ! n)"
  shows "sortedRange k zs a b"
  unfolding sortedRange_def
proof (intro allI impI)
  fix i j assume h: "a \<le> i \<and> i < j \<and> j < b"
  consider "j < mid" | "j = mid" | "i < mid" "mid < j" | "i = mid" | "mid < i" by linarith
  then show "k (zs ! i) \<le> k (zs ! j)"
  proof cases
    case 1
    then show ?thesis using assms(1) h by (auto simp: sortedRange_def)
  next
    case 2
    then show ?thesis using assms(3) h by auto
  next
    case 3
    have "k (zs ! i) \<le> k (zs ! mid)" using assms(3) h 3 by auto
    moreover have "k (zs ! mid) \<le> k (zs ! j)" using assms(4) h 3 by auto
    ultimately show ?thesis by simp
  next
    case 4
    then show ?thesis using assms(4) h by auto
  next
    case 5
    then show ?thesis using assms(2) h by (auto simp: sortedRange_def)
  qed
qed

lemma pdqsortLoop_unfold:
  assumes "\<not> b - a \<le> maxInsertion" and "limit \<noteq> 0"
    and "r1 = (if \<not> wb then (breakPatterns_func xs a b, limit - 1) else (xs, limit))"
    and "r2 = choosePivot_func lt (fst r1) a b"
    and "r3 = (if snd r2 = decreasingHint
               then (reverseRange_func (fst r1) a b, b - 1 - (fst r2 - a), increasingHint)
               else (fst r1, fst r2, snd r2))"
    and "r4 = (if wb \<and> wp \<and> snd (snd r3) = increasingHint
               then partialInsertionSort_func lt (fst r3) a b else (fst r3, False))"
    and "r5 = partitionEqual_func lt (fst r4) a b (fst (snd r3))"
    and "r6 = partition_func lt (fst r4) a b (fst (snd r3))"
  shows "pdqsortLoop lt xs a b limit wb wp =
     (if snd r4 then fst r4
      else if a > 0 \<and> \<not> dataLess lt (fst r4) (a - 1) (fst (snd r3))
      then pdqsortLoop lt (fst r5) (snd r5) b (snd r1) wb wp
      else if fst (snd r6) - a < b - fst (snd r6)
      then pdqsortLoop lt (pdqsortLoop lt (fst r6) a (fst (snd r6)) (snd r1) True True)
             (fst (snd r6) + 1) b (snd r1)
             ((b - a) div 8 \<le> fst (snd r6) - a) (snd (snd r6))
      else pdqsortLoop lt (pdqsortLoop lt (fst r6) (fst (snd r6) + 1) b (snd r1) True True)
             a (fst (snd r6)) (snd r1)
             ((b - a) div 8 \<le> b - fst (snd r6)) (snd (snd r6)))"
  unfolding assms(3-8)
  by (subst pdqsortLoop.simps) (simp only: Let_def case_prod_beta assms(1,2) if_False)

lemma lowerBounded_after_pivot:
  "\<forall>n. mid < n \<and> n < b \<longrightarrow> k (zs ! mid) \<le> k (zs ! n) \<Longrightarrow> lowerBounded k zs (mid + 1) b"
  by (auto simp: lowerBounded_def)

lemma pdqsortLoop_spec:
  assumes "keyOrder lt k" and "a \<le> b" and "b \<le> length xs" and "lowerBounded k xs a b"
  shows "permutedIn xs (pdqsortLoop lt xs a b limit wb wp) a b \<and>
         sortedRange k (pdqsortLoop lt xs a b limit wb wp) a b"
  using assms
proof (induction lt xs a b limit wb wp rule: pdqsortLoop.induct)
  case (1 lt xs a b limit wb wp)
  note K = "1.prems"(1) and ab = "1.prems"(2) and bl = "1.prems"(3) and LB = "1.prems"(4)
  show ?case
  proof (cases "b - a \<le> maxInsertion")
    case True
    then have "pdqsortLoop lt xs a b limit wb wp = insertionSort_func lt xs a b"
      by (subst pdqsortLoop.simps) (simp add: Let_def)
    then show ?thesis using insertionSort_func_spec [OF K bl] by simp
  next
    case c1: False
    show ?thesis
    proof (cases "limit = 0")
      case True
      then have "pdqsortLoop lt xs a b limit wb wp = heapSort_func lt xs a b"
        using c1 by (subst pdqsortLoop.simps) (simp add: Let_def)
      then show ?thesis using heapSort_func_spec [OF K ab bl] by simp
    next
      case c2: False
      have big: "12 < b - a" using c1 by (simp add: maxInsertion_def)
      define r1 where "r1 = (if \<not> wb then (breakPatterns_func xs a b, limit - 1) else (xs, limit))"
      define r2 where "r2 = choosePivot_func lt (fst r1) a b"
      define r3 where "r3 = (if snd r2 = decreasingHint
               then (reverseRange_func (fst r1) a b, b - 1 - (fst r2 - a), increasingHint)
               else (fst r1, fst r2, snd r2))"
      define r4 where "r4 = (if wb \<and> wp \<and> snd (snd r3) = increasingHint
               then partialInsertionSort_func lt (fst r3) a b else (fst r3, False))"
      define r5 where "r5 = partitionEqual_func lt (fst r4) a b (fst (snd r3))"
      define r6 where "r6 = partition_func lt (fst r4) a b (fst (snd r3))"
      note unf = pdqsortLoop_unfold [OF c1 c2 r1_def r2_def r3_def r4_def r5_def r6_def]
      have P1: "permutedIn xs (fst r1) a b"
        unfolding r1_def using breakPatterns_func_spec [OF ab bl] by simp
      have len1: "length (fst r1) = length xs" using P1 by (simp add: permutedIn_def)
      have "choosePivot_func lt (fst r1) a b = (fst r2, snd r2)" by (simp add: r2_def)
      then have pv: "a \<le> fst r2 \<and> fst r2 < b"
        by (rule choosePivot_func_range [rotated]) (use big in simp)
      have P2: "permutedIn (fst r1) (fst r3) a b"
      proof (cases "snd r2 = decreasingHint")
        case True
        then have "fst r3 = reverseRange_func (fst r1) a b" by (simp add: r3_def)
        then show ?thesis using reverseRange_func_spec [of a b "fst r1"] big bl len1 by simp
      next
        case False
        then show ?thesis by (simp add: r3_def)
      qed
      have pv2: "a \<le> fst (snd r3) \<and> fst (snd r3) < b"
        using pv by (auto simp: r3_def)
      have P12: "permutedIn xs (fst r3) a b" using P1 P2 permutedIn_trans by blast
      have len3: "length (fst r3) = length xs" using P12 by (simp add: permutedIn_def)
      have LB3: "lowerBounded k (fst r3) a b"
        by (rule lowerBounded_permutedIn [OF LB P12 ab bl])
      have P3: "permutedIn (fst r3) (fst r4) a b \<and> (snd r4 \<longrightarrow> sortedRange k (fst r4) a b)"
      proof (cases "wb \<and> wp \<and> snd (snd r3) = increasingHint")
        case True
        then have "partialInsertionSort_func lt (fst r3) a b = (fst r4, snd r4)"
          by (simp add: r4_def)
        then show ?thesis
          using K big bl len3 LB3 by (intro partialInsertionSort_func_spec) auto
      next
        case False
        then have "r4 = (fst r3, False)" unfolding r4_def by (rule if_not_P)
        then show ?thesis by (simp add: permutedIn_refl)
      qed
      have P123: "permutedIn xs (fst r4) a b" using P12 P3 permutedIn_trans by blast
      have len4: "length (fst r4) = length xs" using P123 by (simp add: permutedIn_def)
      have LB4: "lowerBounded k (fst r4) a b"
        by (rule lowerBounded_permutedIn [OF LB P123 ab bl])
      show ?thesis
      proof (cases "snd r4")
        case True
        then show ?thesis unfolding unf using P123 P3 by simp
      next
        case ns: False
        show ?thesis
        proof (cases "0 < a \<and> \<not> dataLess lt (fst r4) (a - 1) (fst (snd r3))")
          case cE: True
          have e: "pdqsortLoop lt xs a b limit wb wp =
                   pdqsortLoop lt (fst r5) (snd r5) b (snd r1) wb wp"
            unfolding unf by (simp only: ns cE if_True if_False simp_thms)
          have "k (fst r4 ! fst (snd r3)) \<le> k (fst r4 ! (a - 1))"
            using cE K by (simp add: dataLess_key)
          moreover have "\<And>n. a \<le> n \<Longrightarrow> n < b \<Longrightarrow> k (fst r4 ! (a - 1)) \<le> k (fst r4 ! n)"
            using LB4 cE by (auto simp: lowerBounded_def)
          ultimately have mn: "\<forall>n. a \<le> n \<and> n < b \<longrightarrow>
              k (fst r4 ! fst (snd r3)) \<le> k (fst r4 ! n)"
            by fastforce
          have "partitionEqual_func lt (fst r4) a b (fst (snd r3)) = (fst r5, snd r5)"
            by (simp add: r5_def)
          then have E: "permutedIn (fst r4) (fst r5) a b \<and> a < snd r5 \<and> snd r5 \<le> b \<and>
              (\<forall>n. a \<le> n \<and> n < snd r5 \<longrightarrow> k (fst r5 ! n) = k (fst r4 ! fst (snd r3))) \<and>
              (\<forall>n. snd r5 \<le> n \<and> n < b \<longrightarrow> k (fst r4 ! fst (snd r3)) < k (fst r5 ! n))"
            using K pv2 bl len4 mn by (intro partitionEqual_func_spec) auto
          define pk where "pk = k (fst r4 ! fst (snd r3))"
          have len5: "length (fst r5) = length xs" using E len4 by (simp add: permutedIn_def)
          have LB5: "lowerBounded k (fst r5) (snd r5) b"
            unfolding lowerBounded_def
          proof (intro impI allI)
            fix n assume "0 < snd r5" and h: "snd r5 \<le> n \<and> n < b"
            have "k (fst r5 ! (snd r5 - 1)) = pk" using E by (auto simp: pk_def)
            moreover have "pk < k (fst r5 ! n)" using E h by (auto simp: pk_def)
            ultimately show "k (fst r5 ! (snd r5 - 1)) \<le> k (fst r5 ! n)" by simp
          qed
          define ys where "ys = pdqsortLoop lt (fst r5) (snd r5) b (snd r1) wb wp"
          have IH: "permutedIn (fst r5) ys (snd r5) b \<and> sortedRange k ys (snd r5) b"
            unfolding ys_def
          proof (rule "1.IH"(1) [OF refl c1 c2 r1_def prod.collapse r2_def prod.collapse
                r3_def prod.collapse prod.collapse r4_def prod.collapse ns cE r5_def
                prod.collapse K])
            show "snd r5 \<le> b" using E by simp
            show "b \<le> length (fst r5)" using len5 bl by simp
            show "lowerBounded k (fst r5) (snd r5) b" by (rule LB5)
          qed
          have P5: "permutedIn (fst r5) ys a b"
            by (rule permutedIn_mono [of "fst r5" ys "snd r5" b]) (use IH E in simp_all)
          have Pall: "permutedIn xs ys a b"
            using P123 E P5 permutedIn_trans by blast
          have low: "\<And>n. a \<le> n \<Longrightarrow> n < snd r5 \<Longrightarrow> k (ys ! n) = pk"
          proof -
            fix n assume "a \<le> n" "n < snd r5"
            then have "ys ! n = fst r5 ! n"
              using IH E len5 bl by (intro permutedIn_outside [of "fst r5" ys "snd r5" b]) auto
            then show "k (ys ! n) = pk" using E \<open>a \<le> n\<close> \<open>n < snd r5\<close> by (auto simp: pk_def)
          qed
          have high: "\<And>n. snd r5 \<le> n \<Longrightarrow> n < b \<Longrightarrow> pk < k (ys ! n)"
          proof -
            fix n assume h: "snd r5 \<le> n" "n < b"
            have "permutedIn (fst r5) ys (snd r5) b" using IH by simp
            moreover have "snd r5 \<le> b" "b \<le> length (fst r5)" using E len5 bl by auto
            moreover have "\<forall>i. snd r5 \<le> i \<and> i < b \<longrightarrow> pk < k (fst r5 ! i)"
              using E by (auto simp: pk_def)
            ultimately show "pk < k (ys ! n)"
              using h permutedIn_range_all [of "fst r5" ys "snd r5" b "\<lambda>x. pk < k x" n] by blast
          qed
          have "sortedRange k ys a b"
            unfolding sortedRange_def
          proof (intro allI impI)
            fix i j assume h: "a \<le> i \<and> i < j \<and> j < b"
            show "k (ys ! i) \<le> k (ys ! j)"
            proof (cases "i < snd r5")
              case True
              then have ki: "k (ys ! i) = pk" using low h by auto
              show ?thesis
              proof (cases "j < snd r5")
                case True
                then show ?thesis using low [of j] h ki by auto
              next
                case False
                then show ?thesis using high [of j] h ki by auto
              qed
            next
              case False
              then show ?thesis using IH h by (auto simp: sortedRange_def)
            qed
          qed
          then show ?thesis unfolding e ys_def [symmetric] using Pall by simp
        next
          case cP: False
          define xs4 where "xs4 = fst r6"
          define mid where "mid = fst (snd r6)"
          define already where "already = snd (snd r6)"
          have "partition_func lt (fst r4) a b (fst (snd r3)) = (xs4, mid, already)"
            by (simp add: r6_def xs4_def mid_def already_def)
          then have Pt: "permutedIn (fst r4) xs4 a b \<and> a \<le> mid \<and> mid < b \<and>
              (\<forall>n. a \<le> n \<and> n < mid \<longrightarrow> k (xs4 ! n) < k (xs4 ! mid)) \<and>
              (\<forall>n. mid < n \<and> n < b \<longrightarrow> k (xs4 ! mid) \<le> k (xs4 ! n))"
            using K pv2 bl len4 by (intro partition_func_spec) auto
          have P4: "permutedIn xs xs4 a b" using P123 Pt permutedIn_trans by blast
          have len6: "length xs4 = length xs" using P4 by (simp add: permutedIn_def)
          have LB6: "lowerBounded k xs4 a b"
            by (rule lowerBounded_permutedIn [OF LB P4 ab bl])
          define pk where "pk = k (xs4 ! mid)"
          show ?thesis
          proof (cases "mid - a < b - mid")
            case cL: True
            define ys1 where "ys1 = pdqsortLoop lt xs4 a mid (snd r1) True True"
            define ys2 where "ys2 = pdqsortLoop lt ys1 (mid + 1) b (snd r1)
                ((b - a) div 8 \<le> mid - a) already"
            have e: "pdqsortLoop lt xs a b limit wb wp = ys2"
              unfolding unf ys2_def ys1_def xs4_def mid_def already_def
              by (simp only: ns cP cL [unfolded mid_def] if_True if_False)
            have IH2: "permutedIn xs4 ys1 a mid \<and> sortedRange k ys1 a mid"
              unfolding ys1_def xs4_def mid_def
            proof (rule "1.IH"(2) [OF refl c1 c2 r1_def prod.collapse r2_def prod.collapse
                  r3_def prod.collapse prod.collapse r4_def prod.collapse ns cP r6_def
                  prod.collapse prod.collapse refl refl refl _ K])
              show "fst (snd r6) - a < b - fst (snd r6)" using cL by (simp add: mid_def)
              show "a \<le> fst (snd r6)" using Pt by (simp add: mid_def)
              show "fst (snd r6) \<le> length (fst r6)" using Pt len6 bl by (simp add: mid_def xs4_def)
              show "lowerBounded k (fst r6) a (fst (snd r6))"
                using lowerBounded_mono [OF LB6, of mid] Pt by (simp add: mid_def xs4_def)
            qed
            have len7: "length ys1 = length xs" using IH2 len6 by (simp add: permutedIn_def)
            have y1o: "\<And>n. mid \<le> n \<Longrightarrow> n < b \<Longrightarrow> ys1 ! n = xs4 ! n"
              using IH2 len6 bl by (intro permutedIn_outside [of xs4 ys1 a mid]) auto
            have LB7: "lowerBounded k ys1 (mid + 1) b"
            proof (rule lowerBounded_after_pivot, intro allI impI)
              fix n assume h: "mid < n \<and> n < b"
              have "k (xs4 ! mid) \<le> k (xs4 ! n)" using Pt h by auto
              then show "k (ys1 ! mid) \<le> k (ys1 ! n)" using y1o [of mid] y1o [of n] h by simp
            qed
            have IH3: "permutedIn ys1 ys2 (mid + 1) b \<and> sortedRange k ys2 (mid + 1) b"
              unfolding ys2_def ys1_def xs4_def mid_def already_def
            proof (rule "1.IH"(3) [OF refl c1 c2 r1_def prod.collapse r2_def prod.collapse
                  r3_def prod.collapse prod.collapse r4_def prod.collapse ns cP r6_def
                  prod.collapse prod.collapse refl refl refl _ K])
              show "fst (snd r6) - a < b - fst (snd r6)" using cL by (simp add: mid_def)
              show "fst (snd r6) + 1 \<le> b" using Pt by (simp add: mid_def)
              show "b \<le> length (pdqsortLoop lt (fst r6) a (fst (snd r6)) (snd r1) True True)"
                using len7 bl by (simp add: ys1_def xs4_def mid_def)
              show "lowerBounded k (pdqsortLoop lt (fst r6) a (fst (snd r6)) (snd r1) True True)
                     (fst (snd r6) + 1) b"
                using LB7 by (simp add: ys1_def xs4_def mid_def)
            qed
            have Pall: "permutedIn xs ys2 a b"
            proof -
              have "permutedIn xs4 ys1 a b"
                by (rule permutedIn_mono [of xs4 ys1 a mid]) (use IH2 Pt in simp_all)
              moreover have "permutedIn ys1 ys2 a b"
                by (rule permutedIn_mono [of ys1 ys2 "mid + 1" b]) (use IH3 Pt in simp_all)
              ultimately show ?thesis using P4 permutedIn_trans by blast
            qed
            have y2o: "\<And>n. n \<le> mid \<Longrightarrow> ys2 ! n = ys1 ! n"
              using IH3 len7 bl Pt by (intro permutedIn_outside [of ys1 ys2 "mid + 1" b]) auto
            have left: "\<forall>n. a \<le> n \<and> n < mid \<longrightarrow> k (ys2 ! n) \<le> k (ys2 ! mid)"
            proof (intro allI impI)
              fix n assume h: "a \<le> n \<and> n < mid"
              have "permutedIn xs4 ys1 a mid" using IH2 by simp
              moreover have "a \<le> mid" "mid \<le> length xs4" using Pt len6 bl by auto
              moreover have "\<forall>i. a \<le> i \<and> i < mid \<longrightarrow> k (xs4 ! i) \<le> pk"
                using Pt by (auto simp: pk_def less_imp_le)
              ultimately have "k (ys1 ! n) \<le> pk"
                using h permutedIn_range_all [of xs4 ys1 a mid "\<lambda>x. k x \<le> pk" n] by blast
              moreover have "ys1 ! mid = xs4 ! mid" using y1o [of mid] Pt by simp
              ultimately show "k (ys2 ! n) \<le> k (ys2 ! mid)"
                using y2o [of n] y2o [of mid] h by (simp add: pk_def)
            qed
            have right: "\<forall>n. mid < n \<and> n < b \<longrightarrow> k (ys2 ! mid) \<le> k (ys2 ! n)"
            proof (intro allI impI)
              fix n assume h: "mid < n \<and> n < b"
              have "permutedIn ys1 ys2 (mid + 1) b" using IH3 by simp
              moreover have "mid + 1 \<le> b" "b \<le> length ys1" using Pt len7 bl by auto
              moreover have "\<forall>i. mid + 1 \<le> i \<and> i < b \<longrightarrow> pk \<le> k (ys1 ! i)"
                using Pt y1o by (auto simp: pk_def)
              ultimately have "pk \<le> k (ys2 ! n)"
                using h permutedIn_range_all [of ys1 ys2 "mid + 1" b "\<lambda>x. pk \<le> k x" n] by auto
              moreover have "ys2 ! mid = xs4 ! mid" using y2o [of mid] y1o [of mid] Pt by simp
              ultimately show "k (ys2 ! mid) \<le> k (ys2 ! n)" by (simp add: pk_def)
            qed
            have "permutedIn ys1 ys2 mid b"
              by (rule permutedIn_mono [of ys1 ys2 "mid + 1" b]) (use IH3 in simp_all)
            moreover have "mid \<le> length ys1" using len7 bl Pt by simp
            ultimately have sl: "sortedRange k ys2 a mid"
              using IH2 by (intro sortedRange_outside [of k ys1 a mid ys2 b]) simp_all
            have "sortedRange k ys2 a b"
              using sl IH3 left right by (intro sortedRange_join [of k ys2 a mid b]) auto
            then show ?thesis unfolding e using Pall by simp
          next
            case cR: False
            define ys1 where "ys1 = pdqsortLoop lt xs4 (mid + 1) b (snd r1) True True"
            define ys2 where "ys2 = pdqsortLoop lt ys1 a mid (snd r1)
                ((b - a) div 8 \<le> b - mid) already"
            have e: "pdqsortLoop lt xs a b limit wb wp = ys2"
              unfolding unf ys2_def ys1_def xs4_def mid_def already_def
              by (simp only: ns cP cR [unfolded mid_def] if_True if_False)
            have LBr: "lowerBounded k xs4 (mid + 1) b"
              using Pt by (intro lowerBounded_after_pivot) auto
            have IH4: "permutedIn xs4 ys1 (mid + 1) b \<and> sortedRange k ys1 (mid + 1) b"
              unfolding ys1_def xs4_def mid_def
            proof (rule "1.IH"(4) [OF refl c1 c2 r1_def prod.collapse r2_def prod.collapse
                  r3_def prod.collapse prod.collapse r4_def prod.collapse ns cP r6_def
                  prod.collapse prod.collapse refl refl refl _ K])
              show "\<not> fst (snd r6) - a < b - fst (snd r6)" using cR by (simp add: mid_def)
              show "fst (snd r6) + 1 \<le> b" using Pt by (simp add: mid_def)
              show "b \<le> length (fst r6)" using len6 bl by (simp add: xs4_def)
              show "lowerBounded k (fst r6) (fst (snd r6) + 1) b"
                using LBr by (simp add: mid_def xs4_def)
            qed
            have len7: "length ys1 = length xs" using IH4 len6 by (simp add: permutedIn_def)
            have y1o: "\<And>n. n \<le> mid \<Longrightarrow> ys1 ! n = xs4 ! n"
              using IH4 len6 bl Pt by (intro permutedIn_outside [of xs4 ys1 "mid + 1" b]) auto
            have P41: "permutedIn xs4 ys1 a b"
              by (rule permutedIn_mono [of xs4 ys1 "mid + 1" b]) (use IH4 Pt in simp_all)
            have LB7: "lowerBounded k ys1 a mid"
              using lowerBounded_mono [OF lowerBounded_permutedIn [OF LB6 P41], of mid]
                ab bl len6 Pt by simp
            have IH5: "permutedIn ys1 ys2 a mid \<and> sortedRange k ys2 a mid"
              unfolding ys2_def ys1_def xs4_def mid_def already_def
            proof (rule "1.IH"(5) [OF refl c1 c2 r1_def prod.collapse r2_def prod.collapse
                  r3_def prod.collapse prod.collapse r4_def prod.collapse ns cP r6_def
                  prod.collapse prod.collapse refl refl refl _ K])
              show "\<not> fst (snd r6) - a < b - fst (snd r6)" using cR by (simp add: mid_def)
              show "a \<le> fst (snd r6)" using Pt by (simp add: mid_def)
              show "fst (snd r6) \<le> length (pdqsortLoop lt (fst r6) (fst (snd r6) + 1) b (snd r1) True True)"
                using len7 bl Pt by (simp add: ys1_def xs4_def mid_def)
              show "lowerBounded k (pdqsortLoop lt (fst r6) (fst (snd r6) + 1) b (snd r1) True True)
                     a (fst (snd r6))"
                using LB7 by (simp add: ys1_def xs4_def mid_def)
            qed
            have Pall: "permutedIn xs ys2 a b"
            proof -
              have "permutedIn ys1 ys2 a b"
                by (rule permutedIn_mono [of ys1 ys2 a mid]) (use IH5 Pt in simp_all)
              then show ?thesis using P4 P41 permutedIn_trans by blast
            qed
            have y2o: "\<And>n. mid \<le> n \<Longrightarrow> n < b \<Longrightarrow> ys2 ! n = ys1 ! n"
              using IH5 len7 bl by (intro permutedIn_outside [of ys1 ys2 a mid]) auto
            have left: "\<forall>n. a \<le> n \<and> n < mid \<longrightarrow> k (ys2 ! n) \<le> k (ys2 ! mid)"
            proof (intro allI impI)
              fix n assume h: "a \<le> n \<and> n < mid"
              have "permutedIn ys1 ys2 a mid" using IH5 by simp
              moreover have "a \<le> mid" "mid \<le> length ys1" using Pt len7 bl by auto
              moreover have "\<forall>i. a \<le> i \<and> i < mid \<longrightarrow> k (ys1 ! i) \<le> pk"
                using Pt y1o by (auto simp: pk_def less_imp_le)
              ultimately have "k (ys2 ! n) \<le> pk"
                using h permutedIn_range_all [of ys1 ys2 a mid "\<lambda>x. k x \<le> pk" n] by blast
              moreover have "ys2 ! mid = xs4 ! mid" using y2o [of mid] y1o [of mid] Pt by simp
              ultimately show "k (ys2 ! n) \<le> k (ys2 ! mid)" by (simp add: pk_def)
            qed
            have right: "\<forall>n. mid < n \<and> n < b \<longrightarrow> k (ys2 ! mid) \<le> k (ys2 ! n)"
            proof (intro allI impI)
              fix n assume h: "mid < n \<and> n < b"
              have "permutedIn xs4 ys1 (mid + 1) b" using IH4 by simp
              moreover have "mid + 1 \<le> b" "b \<le> length xs4" using Pt len6 bl by auto
              moreover have "\<forall>i. mid + 1 \<le> i \<and> i < b \<longrightarrow> pk \<le> k (xs4 ! i)"
                using Pt by (auto simp: pk_def)
              ultimately have "pk \<le> k (ys1 ! n)"
                using h permutedIn_range_all [of xs4 ys1 "mid + 1" b "\<lambda>x. pk \<le> k x" n] by auto
              moreover have "ys2 ! mid = xs4 ! mid" using y2o [of mid] y1o [of mid] Pt by simp
              ultimately show "k (ys2 ! mid) \<le> k (ys2 ! n)"
                using y2o [of n] h by (simp add: pk_def)
            qed
            have sr: "sortedRange k ys2 (mid + 1) b"
              unfolding sortedRange_def
            proof (intro allI impI)
              fix i j assume h: "mid + 1 \<le> i \<and> i < j \<and> j < b"
              then have "ys2 ! i = ys1 ! i" "ys2 ! j = ys1 ! j" using y2o by auto
              then show "k (ys2 ! i) \<le> k (ys2 ! j)" using IH4 h by (auto simp: sortedRange_def)
            qed
            have "sortedRange k ys2 a b"
              using sr IH5 left right by (intro sortedRange_join [of k ys2 a mid b]) auto
            then show ?thesis unfolding e using Pall by simp
          qed
        qed
      qed
    qed
  qed
qed

subsection \<open>sort.Slice\<close>

lemma Slice_spec:
  assumes "keyOrder lt k"
  shows "mset (Slice lt xs) = mset xs \<and> sorted_wrt (\<lambda>x y. k x \<le> k y) (Slice lt xs)"
proof -
  define ys where "ys = Slice lt xs"
  have lb: "lowerBounded k xs 0 (length xs)" by (simp add: lowerBounded_def)
  have "permutedIn xs ys 0 (length xs) \<and> sortedRange k ys 0 (length xs)"
    unfolding ys_def Slice_def pdqsort_func_def Let_def
    by (rule pdqsortLoop_spec [OF assms _ _ lb]) simp_all
  then have m: "mset ys = mset xs" and s: "sortedRange k ys 0 (length ys)"
    by (auto simp: permutedIn_def)
  have "sorted_wrt (\<lambda>x y. k x \<le> k y) ys"
    unfolding sorted_wrt_iff_nth_less using s by (auto simp: sortedRange_def)
  then show ?thesis using m by (simp add: ys_def)
qed

text \<open>
  With the date comparison of the collection builder, \<open>sort.Slice\<close> returns the same
  records in descending date order.
\<close>

lemma sortsByDate_Slice: "sortsByDate Slice"
proof -
  have "keyOrder dateAfter (\<lambda>p. - Date p)"
    by (simp add: keyOrder_def dateAfter_def)
  from Slice_spec [OF this] show ?thesis
    by (simp add: sortsByDate_def dateAfter_def not_less)
qed

section \<open>The collection is sorted by date\<close>

text \<open>
  C1 (as amended). When \<open>sort.Slice\<close> sorts by the date comparison, the builder returns
  the loaded records, each exactly once, ordered by date descending: no record is followed
  by one with a later date. Nothing is said about the order of records with equal dates.
\<close>

theorem collection_sorted_by_date:
  assumes "sortsByDate (sortSlice E)" and "loadPostsFromDirectory E pattern = Inr posts"
  shows "sorted_wrt (\<lambda>p q. Date q \<le> Date p) posts \<and>
         (\<exists>files loaded. filepathGlob E pattern = Inr files \<and>
            map (LoadPostFromFile E) files = map Inr loaded \<and>
            mset posts = mset loaded)"
proof -
  from assms(2) obtain files loaded where
    g: "filepathGlob E pattern = Inr files"
    and l: "loadEach E files [] = Inr loaded"
    and p: "posts = sortSlice E dateAfter loaded"
    by (auto simp: loadPostsFromDirectory_def split: sum.splits)
  from l have m: "map (LoadPostFromFile E) files = map Inr loaded"
    by (simp add: loadEach_Inr_iff)
  from assms(1) have c: "mset posts = mset loaded"
    and s: "sorted_wrt (\<lambda>p q. \<not> dateAfter q p) posts"
    unfolding sortsByDate_def p by auto
  have "(\<lambda>p q. \<not> dateAfter q p) = (\<lambda>p q. Date q \<le> Date p)"
    by (auto simp: dateAfter_def fun_eq_iff)
  with s have "sorted_wrt (\<lambda>p q. Date q \<le> Date p) posts" by simp
  then show ?thesis using g m c by blast
qed

theorem collection_sorted_by_date_witness:
  "sortsByDate (sortSlice siteThirteen) \<and>
   loadPostsFromDirectory siteThirteen ''posts/*.md'' =
     Inr [plainPost ''p06'' 2, plainPost ''p01'' 2, plainPost ''p02'' 2,
          plainPost ''p03'' 2, plainPost ''p04'' 2, plainPost ''p05'' 2,
          plainPost ''p07'' 2, plainPost ''p08'' 2, plainPost ''p09'' 2,
          plainPost ''p10'' 2, plainPost ''p11'' 2, plainPost ''p12'' 2,
          plainPost ''p00'' 1] \<and>
   sorted_wrt (\<lambda>p q. Date q \<le> Date p)
         [plainPost ''p06'' 2, plainPost ''p01'' 2, plainPost ''p02'' 2,
          plainPost ''p03'' 2, plainPost ''p04'' 2, plainPost ''p05'' 2,
          plainPost ''p07'' 2, plainPost ''p08'' 2, plainPost ''p09'' 2,
          plainPost ''p10'' 2, plainPost ''p11'' 2, plainPost ''p12'' 2,
          plainPost ''p00'' 1]"
proof -
  have c: "sortsByDate (sortSlice siteThirteen)"
    using sortsByDate_Slice by (simp add: siteThirteen_def)
  have l: "loadPostsFromDirectory siteThirteen ''posts/*.md'' =
     Inr [plainPost ''p06'' 2, plainPost ''p01'' 2, plainPost ''p02'' 2,
          plainPost ''p03'' 2, plainPost ''p04'' 2, plainPost ''p05'' 2,
          plainPost ''p07'' 2, plainPost ''p08'' 2, plainPost ''p09'' 2,
          plainPost ''p10'' 2, plainPost ''p11'' 2, plainPost ''p12'' 2,
          plainPost ''p00'' 1]"
    by code_simp
  show ?thesis
    using collection_sorted_by_date [OF c l] c l by blast
qed

text \<open>
  C1 as stated fails. With thirteen records, of which the first in glob order is the
  oldest and the other twelve share one date, \<open>sort.Slice\<close> partitions around the
  seventh record and moves it to the front: \<open>p06\<close> ends up before \<open>p01\<close> to \<open>p05\<close>,
  which have the same date and came first in the input.
\<close>

theorem equal_dates_reordered:
  "filepathGlob siteThirteen ''posts/*.md'' = Inr thirteenFiles \<and>
   loadEach siteThirteen thirteenFiles [] =
     Inr [plainPost ''p00'' 1, plainPost ''p01'' 2, plainPost ''p02'' 2,
          plainPost ''p03'' 2, plainPost ''p04'' 2, plainPost ''p05'' 2,
          plainPost ''p06'' 2, plainPost ''p07'' 2, plainPost ''p08'' 2,
          plainPost ''p09'' 2, plainPost ''p10'' 2, plainPost ''p11'' 2,
          plainPost ''p12'' 2] \<and>
   loadPostsFromDirectory siteThirteen ''posts/*.md'' =
     Inr [plainPost ''p06'' 2, plainPost ''p01'' 2, plainPost ''p02'' 2,
          plainPost ''p03'' 2, plainPost ''p04'' 2, plainPost ''p05'' 2,
          plainPost ''p07'' 2, plainPost ''p08'' 2, plainPost ''p09'' 2,
          plainPost ''p10'' 2, plainPost ''p11'' 2, plainPost ''p12'' 2,
          plainPost ''p00'' 1]"
  by code_simp

section \<open>Front matter is soft, the file system is hard\<close>

text \<open>
  C3. When the document was read and \<open>frontmatter.Parse\<close> fails, the parse error is
  dropped: the loader goes on exactly as for a document without front matter. The Markdown
  renderer gets the original bytes, the title is the humanized file name and the date is
  the modification time, and the load returns a record whenever the stat and the renderer
  succeed; the parse error itself is never returned.
\<close>

theorem frontmatter_failure_is_soft:
  assumes "osReadFile E p = Inr mdBytes" and "frontmatterParse E mdBytes = Inl perr"
  shows "LoadPostFromFile E p =
     (case osStat E p of
        Inl err \<Rightarrow> Inl err
      | Inr modTime \<Rightarrow>
          (case markdownConvert E mdBytes of
             Inl err \<Rightarrow> Inl err
           | Inr html \<Rightarrow>
               Inr \<lparr>Title = CleanTitle E (Base p), Date = modTime,
                    Slug = TrimSuffix (Base p) (Ext (Base p)), Content = html\<rparr>))"
  using assms
  by (simp add: LoadPostFromFile_def parseOrEmpty_def emptyFrontmatter_def Let_def
           split: sum.splits)

theorem frontmatter_failure_is_soft_witness:
  "osReadFile site ''thoughts/idea.md'' = Inr ''FM broken'' \<and>
   frontmatterParse site ''FM broken'' = Inl (ErrOther ''yaml'') \<and>
   LoadPostFromFile site ''thoughts/idea.md'' =
     Inr \<lparr>Title = ''Idea'', Date = 300, Slug = ''idea'', Content = ''<p>FM broken</p>''\<rparr>"
proof -
  have r: "osReadFile site ''thoughts/idea.md'' = Inr ''FM broken''" by code_simp
  have f: "frontmatterParse site ''FM broken'' = Inl (ErrOther ''yaml'')" by code_simp
  have s: "osStat site ''thoughts/idea.md'' = Inr 300" by code_simp
  have m: "markdownConvert site ''FM broken'' = Inr ''<p>FM broken</p>''" by code_simp
  have t: "CleanTitle site (Base ''thoughts/idea.md'') = ''Idea''" by code_simp
  have g: "TrimSuffix (Base ''thoughts/idea.md'') (Ext (Base ''thoughts/idea.md'')) = ''idea''"
    by code_simp
  show ?thesis
    using frontmatter_failure_is_soft [OF r f] r f by (simp add: s m t g)
qed

text \<open>
  C6. A loaded post's title is the front-matter title when that is non-empty; otherwise
  it is the humanized file name: extension stripped, every \<open>-\<close> and \<open>_\<close> replaced by a
  space, and the result passed to the title-caser. For \<open>my-first_post.md\<close> the title-caser
  receives \<open>my first post\<close>.
\<close>

theorem title_from_frontmatter_or_filename:
  assumes "osReadFile E p = Inr mdBytes" and "LoadPostFromFile E p = Inr post"
  shows "(\<forall>fm rest. frontmatterParse E mdBytes = Inr (fm, rest) \<and> fmTitle fm \<noteq> []
            \<longrightarrow> Title post = fmTitle fm)
       \<and> ((\<forall>fm rest. frontmatterParse E mdBytes = Inr (fm, rest) \<longrightarrow> fmTitle fm = [])
            \<longrightarrow> Title post =
                  casesTitle E
                    (ReplaceAll
                       (ReplaceAll (TrimSuffix (Base p) (Ext (Base p))) CHR ''-'' '' '')
                       CHR ''_'' '' ''))
       \<and> CleanTitle E ''my-first_post.md'' = casesTitle E ''my first post''"
proof (intro conjI)
  show "\<forall>fm rest. frontmatterParse E mdBytes = Inr (fm, rest) \<and> fmTitle fm \<noteq> []
            \<longrightarrow> Title post = fmTitle fm"
    using assms
    by (auto simp: LoadPostFromFile_def parseOrEmpty_def Let_def split: sum.splits)
next
  show "(\<forall>fm rest. frontmatterParse E mdBytes = Inr (fm, rest) \<longrightarrow> fmTitle fm = [])
            \<longrightarrow> Title post =
                  casesTitle E
                    (ReplaceAll
                       (ReplaceAll (TrimSuffix (Base p) (Ext (Base p))) CHR ''-'' '' '')
                       CHR ''_'' '' '')"
    using assms
    by (auto simp: LoadPostFromFile_def parseOrEmpty_def emptyFrontmatter_def CleanTitle_def
          Let_def split: sum.splits prod.splits)
next
  have "suffix ''.md'' ''my-first_post.md''"
    by (simp add: suffix_def)
  then show "CleanTitle E ''my-first_post.md'' = casesTitle E ''my first post''"
    by (simp add: CleanTitle_def TrimSuffix_def Ext_def ReplaceAll_def IsPathSeparator_def)
qed

theorem title_from_frontmatter_or_filename_witness:
  "LoadPostFromFile site ''posts/dated.md'' =
     Inr \<lparr>Title = ''Dated Post'', Date = 500, Slug = ''dated'',
          Content = ''<p>dated body</p>''\<rparr> \<and>
   Title \<lparr>Title = ''Dated Post'', Date = 500, Slug = ''dated'',
          Content = ''<p>dated body</p>''\<rparr> =
     fmTitle \<lparr>fmTitle = ''Dated Post'', fmDate = 500\<rparr> \<and>
   CleanTitle site ''my-first_post.md'' = ''My First Post''"
proof -
  have r: "osReadFile site ''posts/dated.md'' = Inr ''FM dated''" by code_simp
  have l: "LoadPostFromFile site ''posts/dated.md'' =
     Inr \<lparr>Title = ''Dated Post'', Date = 500, Slug = ''dated'',
          Content = ''<p>dated body</p>''\<rparr>" by code_simp
  have f: "frontmatterParse site ''FM dated'' =
     Inr (\<lparr>fmTitle = ''Dated Post'', fmDate = 500\<rparr>, ''dated body'')" by code_simp
  have c: "casesTitle site ''my first post'' = ''My First Post''" by code_simp
  show ?thesis
    using title_from_frontmatter_or_filename [OF r l] l f c by simp
qed

text \<open>
  C7. A loaded post's date is the date of the front matter that \<open>frontmatter.Parse\<close>
  returned for the file's bytes when that date is non-zero, and otherwise (zero date, or
  the parse failed) the file's modification time; and when the stat fails, the load fails
  with the stat's error although the contents were read.
\<close>

theorem date_from_frontmatter_or_mtime:
  assumes "osReadFile E p = Inr mdBytes"
  shows "(\<forall>err. osStat E p = Inl err \<longrightarrow> LoadPostFromFile E p = Inl err)
       \<and> (\<forall>post. LoadPostFromFile E p = Inr post \<longrightarrow>
            (\<exists>modTime. osStat E p = Inr modTime \<and>
               Date post =
                 (case frontmatterParse E mdBytes of
                    Inl err \<Rightarrow> modTime
                  | Inr (fm, rest) \<Rightarrow> if fmDate fm \<noteq> 0 then fmDate fm else modTime)))"
  using assms
  by (auto simp: LoadPostFromFile_def parseOrEmpty_def emptyFrontmatter_def Let_def
           split: sum.splits prod.splits)

theorem date_from_frontmatter_or_mtime_witness:
  "osReadFile siteDenied ''posts/dated.md'' = Inr ''FM dated'' \<and>
   osStat siteDenied ''posts/dated.md'' = Inl ErrPermission \<and>
   LoadPostFromFile siteDenied ''posts/dated.md'' = Inl ErrPermission \<and>
   frontmatterParse site ''FM dated'' =
     Inr (\<lparr>fmTitle = ''Dated Post'', fmDate = 500\<rparr>, ''dated body'') \<and>
   osStat site ''posts/dated.md'' = Inr 200 \<and>
   Date (projr (LoadPostFromFile site ''posts/dated.md'')) = 500 \<and>
   frontmatterParse site ''plain body'' = Inr (emptyFrontmatter, ''plain body'') \<and>
   osStat site ''posts/my-first_post.md'' = Inr 100 \<and>
   Date (projr (LoadPostFromFile site ''posts/my-first_post.md'')) = 100 \<and>
   frontmatterParse site ''FM broken'' = Inl (ErrOther ''yaml'') \<and>
   osStat site ''thoughts/idea.md'' = Inr 300 \<and>
   Date (projr (LoadPostFromFile site ''thoughts/idea.md'')) = 300"
proof -
  have r: "osReadFile siteDenied ''posts/dated.md'' = Inr ''FM dated''" by code_simp
  have s: "osStat siteDenied ''posts/dated.md'' = Inl ErrPermission" by code_simp
  have d: "LoadPostFromFile siteDenied ''posts/dated.md'' = Inl ErrPermission"
    using date_from_frontmatter_or_mtime [OF r] s by blast
  have r1: "osReadFile site ''posts/dated.md'' = Inr ''FM dated''" by code_simp
  have f1: "frontmatterParse site ''FM dated'' =
     Inr (\<lparr>fmTitle = ''Dated Post'', fmDate = 500\<rparr>, ''dated body'')" by code_simp
  have s1: "osStat site ''posts/dated.md'' = Inr 200" by code_simp
  have l1: "LoadPostFromFile site ''posts/dated.md'' =
     Inr (projr (LoadPostFromFile site ''posts/dated.md''))" by code_simp
  have d1: "Date (projr (LoadPostFromFile site ''posts/dated.md'')) = 500"
    using date_from_frontmatter_or_mtime [OF r1] l1 f1 s1 by auto
  have r2: "osReadFile site ''posts/my-first_post.md'' = Inr ''plain body''" by code_simp
  have f2: "frontmatterParse site ''plain body'' = Inr (emptyFrontmatter, ''plain body'')"
    by code_simp
  have s2: "osStat site ''posts/my-first_post.md'' = Inr 100" by code_simp
  have l2: "LoadPostFromFile site ''posts/my-first_post.md'' =
     Inr (projr (LoadPostFromFile site ''posts/my-first_post.md''))" by code_simp
  have d2: "Date (projr (LoadPostFromFile site ''posts/my-first_post.md'')) = 100"
    using date_from_frontmatter_or_mtime [OF r2] l2 f2 s2
    by (auto simp: emptyFrontmatter_def)
  have r3: "osReadFile site ''thoughts/idea.md'' = Inr ''FM broken''" by code_simp
  have f3: "frontmatterParse site ''FM broken'' = Inl (ErrOther ''yaml'')" by code_simp
  have s3: "osStat site ''thoughts/idea.md'' = Inr 300" by code_simp
  have l3: "LoadPostFromFile site ''thoughts/idea.md'' =
     Inr (projr (LoadPostFromFile site ''thoughts/idea.md''))" by code_simp
  have d3: "Date (projr (LoadPostFromFile site ''thoughts/idea.md'')) = 300"
    using date_from_frontmatter_or_mtime [OF r3] l3 f3 s3 by auto
  show ?thesis using r s d f1 s1 d1 f2 s2 d2 f3 s3 d3 by simp
qed

section \<open>The collection build is all or nothing\<close>

text \<open>
  C4. Given the glob's matches, the build fails with the error of the first match that
  does not load and returns no list; and it returns a list exactly when every match loads.
\<close>

theorem build_all_or_nothing:
  assumes "filepathGlob E pattern = Inr files"
  shows "(\<forall>pre f rest err.
            files = pre @ f # rest \<and>
            (\<forall>g\<in>set pre. \<exists>post. LoadPostFromFile E g = Inr post) \<and>
            LoadPostFromFile E f = Inl err
            \<longrightarrow> loadPostsFromDirectory E pattern = Inl err)
       \<and> ((\<exists>posts. loadPostsFromDirectory E pattern = Inr posts) \<longleftrightarrow>
          (\<forall>f\<in>set files. \<exists>post. LoadPostFromFile E f = Inr post))"
proof (intro conjI allI impI)
  fix pre f rest err
  assume h: "files = pre @ f # rest \<and>
            (\<forall>g\<in>set pre. \<exists>post. LoadPostFromFile E g = Inr post) \<and>
            LoadPostFromFile E f = Inl err"
  then have "loadEach E files [] = Inl err"
    using loadEach_first_failure by blast
  then show "loadPostsFromDirectory E pattern = Inl err"
    using assms by (simp add: loadPostsFromDirectory_def)
next
  have "(\<exists>posts. loadPostsFromDirectory E pattern = Inr posts) \<longleftrightarrow>
        (\<exists>posts. loadEach E files [] = Inr posts)"
    using assms by (auto simp: loadPostsFromDirectory_def split: sum.splits)
  then show "(\<exists>posts. loadPostsFromDirectory E pattern = Inr posts) \<longleftrightarrow>
          (\<forall>f\<in>set files. \<exists>post. LoadPostFromFile E f = Inr post)"
    by (simp add: loadEach_total)
qed

theorem build_all_or_nothing_witness:
  "filepathGlob siteBroken ''posts/*.md'' =
     Inr ([''posts/dated.md''] @ ''posts/my-first_post.md'' # []) \<and>
   LoadPostFromFile siteBroken ''posts/dated.md'' =
     Inr \<lparr>Title = ''Dated Post'', Date = 500, Slug = ''dated'',
          Content = ''<p>dated body</p>''\<rparr> \<and>
   LoadPostFromFile siteBroken ''posts/my-first_post.md'' = Inl (ErrOther ''convert'') \<and>
   loadPostsFromDirectory siteBroken ''posts/*.md'' = Inl (ErrOther ''convert'')"
proof -
  have g: "filepathGlob siteBroken ''posts/*.md'' =
     Inr ([''posts/dated.md''] @ ''posts/my-first_post.md'' # [])" by code_simp
  have d: "LoadPostFromFile siteBroken ''posts/dated.md'' =
     Inr \<lparr>Title = ''Dated Post'', Date = 500, Slug = ''dated'',
          Content = ''<p>dated body</p>''\<rparr>" by code_simp
  have b: "LoadPostFromFile siteBroken ''posts/my-first_post.md'' = Inl (ErrOther ''convert'')"
    by code_simp
  have p: "\<forall>g\<in>set [''posts/dated.md'']. \<exists>post. LoadPostFromFile siteBroken g = Inr post"
    using d by simp
  have "loadPostsFromDirectory siteBroken ''posts/*.md'' = Inl (ErrOther ''convert'')"
    using build_all_or_nothing [OF g] p b by blast
  then show ?thesis using g d b by simp
qed

section \<open>Single-post lookup\<close>

text \<open>
  C5. With \<open>primary\<close> the path under \<open>posts\<close> and \<open>secondary\<close> the path under
  \<open>thoughts\<close>: a slug whose primary file exists is loaded from the primary path; a slug
  whose primary file does not exist and whose secondary file exists is loaded from the
  secondary path; a slug in neither directory gives the not-exist error, which the post
  handler answers with status 404.
\<close>

theorem lookup_primary_then_secondary:
  fixes E slug
  defines "primary \<equiv> filepathJoin E [''posts'', slug @ ''.md'']"
    and "secondary \<equiv> filepathJoin E [''thoughts'', slug @ ''.md'']"
  shows "((\<exists>t. osStat E primary = Inr t) \<longrightarrow> LoadPost E slug = LoadPostFromFile E primary)
       \<and> (osStat E primary = Inl ErrNotExist \<and> (\<exists>t. osStat E secondary = Inr t)
            \<longrightarrow> LoadPost E slug = LoadPostFromFile E secondary)
       \<and> (osStat E primary = Inl ErrNotExist \<and> osStat E secondary = Inl ErrNotExist
            \<longrightarrow> LoadPost E slug = Inl ErrNotExist \<and>
                statusOf (fst (PostHandler E (Some (''/post/'' @ slug)))) = StatusNotFound)"
  unfolding primary_def secondary_def
  by (auto simp: LoadPost_def statErr_def PostHandler_def httpError_def Let_def IsNotExist_iff)

theorem lookup_primary_then_secondary_witness:
  "osStat site (filepathJoin site [''posts'', ''dated'' @ ''.md'']) = Inr 200 \<and>
   LoadPost site ''dated'' = LoadPostFromFile site ''posts/dated.md'' \<and>
   osStat site (filepathJoin site [''posts'', ''idea'' @ ''.md'']) = Inl ErrNotExist \<and>
   osStat site (filepathJoin site [''thoughts'', ''idea'' @ ''.md'']) = Inr 300 \<and>
   LoadPost site ''idea'' = LoadPostFromFile site ''thoughts/idea.md'' \<and>
   osStat site (filepathJoin site [''posts'', ''nope'' @ ''.md'']) = Inl ErrNotExist \<and>
   osStat site (filepathJoin site [''thoughts'', ''nope'' @ ''.md'']) = Inl ErrNotExist \<and>
   LoadPost site ''nope'' = Inl ErrNotExist \<and>
   statusOf (fst (PostHandler site (Some (''/post/'' @ ''nope'')))) = 404"
proof -
  have a: "osStat site (filepathJoin site [''posts'', ''dated'' @ ''.md'']) = Inr 200"
    by code_simp
  have b: "osStat site (filepathJoin site [''posts'', ''idea'' @ ''.md'']) = Inl ErrNotExist"
    by code_simp
  have c: "osStat site (filepathJoin site [''thoughts'', ''idea'' @ ''.md'']) = Inr 300"
    by code_simp
  have d: "osStat site (filepathJoin site [''posts'', ''nope'' @ ''.md'']) = Inl ErrNotExist"
    by code_simp
  have e: "osStat site (filepathJoin site [''thoughts'', ''nope'' @ ''.md'']) = Inl ErrNotExist"
    by code_simp
  have j: "filepathJoin site [''posts'', ''dated'' @ ''.md''] = ''posts/dated.md''"
    "filepathJoin site [''thoughts'', ''idea'' @ ''.md''] = ''thoughts/idea.md''"
    by code_simp+
  have "LoadPost site ''dated'' = LoadPostFromFile site ''posts/dated.md''"
    using lookup_primary_then_secondary [of site "''dated''"] a j by metis
  moreover have "LoadPost site ''idea'' = LoadPostFromFile site ''thoughts/idea.md''"
    using lookup_primary_then_secondary [of site "''idea''"] b c j by metis
  moreover have "LoadPost site ''nope'' = Inl ErrNotExist \<and>
     statusOf (fst (PostHandler site (Some (''/post/'' @ ''nope'')))) = 404"
    using lookup_primary_then_secondary [of site "''nope''"] d e
    by (simp add: StatusNotFound_def)
  ultimately show ?thesis using a b c d e by simp
qed

text \<open>
  C10. The lookup turns to the secondary directory only when the stat of the primary
  path fails with the not-exist error: for any other stat error it loads the primary path,
  and whenever the result is not that of loading the primary path the stat returned
  not-exist.
\<close>

theorem fallback_only_on_not_exist:
  fixes E slug
  defines "primary \<equiv> filepathJoin E [''posts'', slug @ ''.md'']"
  shows "(\<forall>err. osStat E primary = Inl err \<and> err \<noteq> ErrNotExist
             \<longrightarrow> LoadPost E slug = LoadPostFromFile E primary)
       \<and> (LoadPost E slug \<noteq> LoadPostFromFile E primary \<longrightarrow> osStat E primary = Inl ErrNotExist)"
  unfolding primary_def
  by (auto simp: LoadPost_def statErr_def Let_def IsNotExist_iff split: sum.splits option.splits)

theorem fallback_only_on_not_exist_witness:
  "osStat siteDenied (filepathJoin siteDenied [''posts'', ''dated'' @ ''.md'']) = Inl ErrPermission \<and>
   ErrPermission \<noteq> ErrNotExist \<and>
   LoadPost siteDenied ''dated'' =
     LoadPostFromFile siteDenied (filepathJoin siteDenied [''posts'', ''dated'' @ ''.md'']) \<and>
   LoadPost site ''idea'' \<noteq> LoadPostFromFile site (filepathJoin site [''posts'', ''idea'' @ ''.md'']) \<and>
   osStat site (filepathJoin site [''posts'', ''idea'' @ ''.md'']) = Inl ErrNotExist"
proof -
  have a: "osStat siteDenied (filepathJoin siteDenied [''posts'', ''dated'' @ ''.md'']) =
     Inl ErrPermission" by code_simp
  have n: "LoadPost site ''idea'' \<noteq>
     LoadPostFromFile site (filepathJoin site [''posts'', ''idea'' @ ''.md''])" by code_simp
  have "LoadPost siteDenied ''dated'' =
     LoadPostFromFile siteDenied (filepathJoin siteDenied [''posts'', ''dated'' @ ''.md''])"
    using fallback_only_on_not_exist [of siteDenied "''dated''"] a by simp
  moreover have "osStat site (filepathJoin site [''posts'', ''idea'' @ ''.md'']) = Inl ErrNotExist"
    using fallback_only_on_not_exist [of site "''idea''"] n by blast
  ultimately show ?thesis using a n by simp
qed

section \<open>Rendering errors in the post handler\<close>

text \<open>
  C2. On the site whose renderer fails for the body of \<open>posts/my-first_post.md\<close>, the file
  exists and loading it fails with the conversion error; the post handler answers the
  request for it with status 404, while the listing handler answers the same failure
  with status 500.
\<close>

theorem post_handler_conversion_error_is_404:
  "osStat siteBroken ''posts/my-first_post.md'' = Inr 100 \<and>
   LoadPost siteBroken ''my-first_post'' = Inl (ErrOther ''convert'') \<and>
   statusOf (fst (PostHandler siteBroken (Some ''/post/my-first_post''))) = 404 \<and>
   statusOf (fst (HomeHandler siteBroken)) = 500"
  by code_simp

section \<open>Static generation\<close>

text \<open>
  C8. A generation run that returns nil has written, in this order and each exactly once:
  the home page at \<open>index.html\<close> under the output directory, \<open>about.html\<close>,
  \<open>thoughts.html\<close>, and then for every match of \<open>posts/*.md\<close> followed by every match
  of \<open>thoughts/*.md\<close> one file at \<open>post/<slug>/index.html\<close> under the output
  directory, holding what the post handler wrote for that slug.
\<close>

theorem generation_outputs:
  assumes "GenerateStaticSite E out = (ops, Done)"
  shows "\<exists>posts thoughts.
           filepathGlob E ''posts/*.md'' = Inr posts \<and>
           filepathGlob E ''thoughts/*.md'' = Inr thoughts \<and>
           writtenFiles ops =
             [(filepathJoin E [out, ''index.html''], bufferOf (fst (HomeHandler E))),
              (filepathJoin E [out, ''about.html''], bufferOf (fst (AboutHandler E))),
              (filepathJoin E [out, ''thoughts.html''], bufferOf (fst (ThoughtsHandler E)))]
             @ map (postOutput E out) (posts @ thoughts)"
proof -
  from assms obtain o0 o1 o2 o3 o4 o5 where
    m: "mkdirAll E out = (o0, Done)"
    and h: "generatePage E out ''index.html'' (HomeHandler E) = (o1, Done)"
    and a: "generatePage E out ''about.html'' (AboutHandler E) = (o2, Done)"
    and t: "generatePage E out ''thoughts.html'' (ThoughtsHandler E) = (o3, Done)"
    and p: "generateGlob E out ''posts/*.md'' = (o4, Done)"
    and q: "generateGlob E out ''thoughts/*.md'' = (o5, Done)"
    and ops: "ops = o0 @ o1 @ o2 @ o3 @ o4 @ o5"
    unfolding GenerateStaticSite_def andThen_Done by blast
  have w0: "writtenFiles o0 = []"
    using m by (auto simp: mkdirAll_def split: option.splits)
  from generateGlob_Done [OF p] obtain posts where
    gp: "filepathGlob E ''posts/*.md'' = Inr posts"
    and wp: "writtenFiles o4 = map (postOutput E out) posts" by blast
  from generateGlob_Done [OF q] obtain thoughts where
    gt: "filepathGlob E ''thoughts/*.md'' = Inr thoughts"
    and wt: "writtenFiles o5 = map (postOutput E out) thoughts" by blast
  show ?thesis
    using gp gt wp wt w0 generatePage_Done [OF h] generatePage_Done [OF a]
      generatePage_Done [OF t]
    by (simp add: ops writtenFiles_append)
qed


theorem generation_outputs_witness:
  "snd (GenerateStaticSite site ''public'') = Done \<and>
   map fst (writtenFiles (fst (GenerateStaticSite site ''public''))) =
     [''public/index.html'', ''public/about.html'', ''public/thoughts.html'',
      ''public/post/dated/index.html'', ''public/post/my-first_post/index.html'',
      ''public/post/idea/index.html'']"
proof -
  have d: "snd (GenerateStaticSite site ''public'') = Done" by code_simp
  then have g: "GenerateStaticSite site ''public'' =
      (fst (GenerateStaticSite site ''public''), Done)"
    by (metis prod.collapse)
  from generation_outputs [OF g] obtain posts thoughts where
    gp: "filepathGlob site ''posts/*.md'' = Inr posts"
    and gt: "filepathGlob site ''thoughts/*.md'' = Inr thoughts"
    and w: "writtenFiles (fst (GenerateStaticSite site ''public'')) =
             [(filepathJoin site [''public'', ''index.html''], bufferOf (fst (HomeHandler site))),
              (filepathJoin site [''public'', ''about.html''], bufferOf (fst (AboutHandler site))),
              (filepathJoin site [''public'', ''thoughts.html''],
               bufferOf (fst (ThoughtsHandler site)))]
             @ map (postOutput site ''public'') (posts @ thoughts)"
    by blast
  have "filepathGlob site ''posts/*.md'' = Inr [''posts/dated.md'', ''posts/my-first_post.md'']"
    by code_simp
  with gp have p: "posts = [''posts/dated.md'', ''posts/my-first_post.md'']" by simp
  have "filepathGlob site ''thoughts/*.md'' = Inr [''thoughts/idea.md'']"
    by code_simp
  with gt have t: "thoughts = [''thoughts/idea.md'']" by simp
  have j: "[filepathJoin site [''public'', ''index.html''],
            filepathJoin site [''public'', ''about.html''],
            filepathJoin site [''public'', ''thoughts.html'']] =
           [''public/index.html'', ''public/about.html'', ''public/thoughts.html'']"
    by code_simp
  have q: "map fst (map (postOutput site ''public'')
             ([''posts/dated.md'', ''posts/my-first_post.md''] @ [''thoughts/idea.md''])) =
           [''public/post/dated/index.html'', ''public/post/my-first_post/index.html'',
            ''public/post/idea/index.html'']"
    by code_simp
  show ?thesis using d w p t j q by simp
qed

text \<open>
  C9. Two runs, the first in the world \<open>E\<close> on the output tree \<open>t\<close>, the second in a
  world \<open>E'\<close> on the tree the first run left. When the inputs are unchanged (same
  libraries, same matches of the two patterns, same contents and modification times of the
  Markdown files, same templates) and both runs return nil, the second run makes the writes
  of the first, path for path and byte for byte, and leaves the tree as the first run left
  it.
\<close>

theorem generation_idempotent:
  assumes "sameInputs E E'"
    and "GenerateStaticSite E out = (ops, Done)"
    and "GenerateStaticSite E' out = (ops', Done)"
  shows "ops' = ops \<and> applyOps ops' (applyOps ops t) = applyOps ops t"
proof -
  have "ops' = siteOps E' out" by (rule GenerateStaticSite_Done_ops [OF assms(3)])
  also have "\<dots> = siteOps E out" by (rule siteOps_same [OF assms(1)])
  also have "\<dots> = ops" by (rule GenerateStaticSite_Done_ops [OF assms(2), symmetric])
  finally show ?thesis by (simp add: applyOps_twice)
qed

theorem generation_idempotent_witness:
  "snd (GenerateStaticSite site ''public'') = Done \<and>
   osReadFile site ''public/index.html'' = Inl ErrNotExist \<and>
   osReadFile siteRerun ''public/index.html'' = Inr ''Home: dated my-first_post '' \<and>
   snd (GenerateStaticSite siteRerun ''public'') = Done \<and>
   fst (GenerateStaticSite siteRerun ''public'') = fst (GenerateStaticSite site ''public'')"
proof -
  have d: "snd (GenerateStaticSite site ''public'') = Done" by code_simp
  have d': "snd (GenerateStaticSite siteRerun ''public'') = Done" by code_simp
  have n: "osReadFile site ''public/index.html'' = Inl ErrNotExist" by code_simp
  have n': "osReadFile siteRerun ''public/index.html'' = Inr ''Home: dated my-first_post ''"
    by code_simp
  have l: "sameLibraries site siteRerun"
    by (simp add: sameLibraries_def siteRerun_def)
  have g: "filepathGlob siteRerun = filepathGlob site"
    by (simp add: siteRerun_def)
  have f: "\<forall>p \<in> set (sourceFiles site). sameFile site siteRerun p" by code_simp
  have t: "\<forall>names \<in> set (templateSets site). sameTemplates site siteRerun names"
    by (simp add: sameTemplates_def siteRerun_def)
  have s: "sameInputs site siteRerun"
    using l g f t by (simp add: sameInputs_def)
  have "fst (GenerateStaticSite siteRerun ''public'') = fst (GenerateStaticSite site ''public'')"
    using generation_idempotent [OF s, of "''public''" "fst (GenerateStaticSite site ''public'')"
        "fst (GenerateStaticSite siteRerun ''public'')"] d d'
    by (metis prod.collapse)
  then show ?thesis using d d' n n' by simp
qed

end
